theory Spec2Isabelle
  imports Main
begin

section \<open>Data model of \<open>services/githubServices.ts\<close>\<close>

text \<open>
  The three interfaces of the service. A commit's \<open>author\<close> is \<open>{login, id} | null\<close>;
  the nested \<open>commit.author\<close> object (name, email, date) is kept as a record of its own.
\<close>

record git_author =
  author_name :: string
  author_email :: string
  author_date :: string

record account =
  login :: string
  account_id :: int

record GitHubCommit =
  sha :: string
  commit_author :: git_author
  author :: "account option"

record Repository =
  repo_name :: string
  full_name :: string
  created_at :: string
  default_branch :: string

record ContributorData =
  cd_org :: string
  cd_repository :: string
  cd_year :: string
  cd_month :: "string option"
  newContributors :: nat

text \<open>
  A thrown JavaScript error. Only its \<open>message\<close> is ever read by the service.
  \<open>RangeError\<close> is what \<open>Date.prototype.toISOString\<close> throws on an invalid date.
\<close>

datatype error = Error string | RangeError string

fun message :: "error \<Rightarrow> string" where
  "message (Error m) = m"
| "message (RangeError m) = m"

text \<open>
  What \<open>client.get\<close> is called with: the URL and, for the commit listing, the query
  parameters \<open>{page, per_page, since?, until?}\<close>.
\<close>

record params =
  page :: nat
  per_page :: nat
  since :: "string option"
  until :: "string option"

datatype request = Get string "params option"

text \<open>
  How \<open>client.get\<close> settles: it resolves with \<open>response.data\<close>, or rejects with an
  error of which the service reads \<open>error.response?.status\<close> and \<open>error.message\<close>.
\<close>

datatype 'a outcome = Resolved 'a | Rejected "nat option" string

text \<open>
  The one NodeCache instance holds repositories, commit pages and analysis results
  under string keys; an entry carries the instant (ms) at which it expires, \<open>0\<close> meaning
  never.
\<close>

datatype cache_value =
    VRepository Repository
  | VCommits "GitHubCommit list"
  | VContributorData ContributorData

record cache_entry =
  stored :: cache_value
  expires :: int

datatype log_event =
    SelfRateLimitWait int
  | MaxPageLimit string string

text \<open>
  The mutable fields of \<open>GitHubService\<close> (\<open>cache\<close>, \<open>requestCount\<close>,
  \<open>lastResetTime\<close>) together with what the service observes of the outside: the
  wall clock read by \<open>Date.now()\<close> (ms), the requests sent upstream so far, and what
  was written with \<open>console.log\<close> and with \<open>console.warn\<close>.
\<close>

record service =
  cache :: "string \<rightharpoonup> cache_entry"
  requestCount :: int
  lastResetTime :: int
  clock :: int
  calls :: "request list"
  logged :: "log_event list"
  warned :: "log_event list"

text \<open>
  What the service is configured with and runs against: \<open>RATE_LIMIT_PER_HOUR\<close> is
  \<open>parseInt(process.env.GITHUB_REQUESTS_PER_HOUR || "5000")\<close> (\<open>None\<close> is \<open>NaN\<close>),
  \<open>stdTTL\<close> is the cache's default time to live in seconds, \<open>tzOffset\<close> is the
  process's local time minus UTC in ms (a zone with a fixed offset), \<open>otherDateParse\<close>
  is \<open>Date.parse\<close> on the strings outside the two ISO shapes implemented below, and the
  two APIs are the remote platform as seen through \<open>client.get\<close>, answering a request
  given the requests sent before it.
\<close>

record env =
  RATE_LIMIT_PER_HOUR :: "int option"
  stdTTL :: int
  tzOffset :: int
  otherDateParse :: "string \<Rightarrow> int option"
  repoApi :: "request list \<Rightarrow> string \<Rightarrow> Repository outcome"
  commitsApi :: "request list \<Rightarrow> string \<Rightarrow> params \<Rightarrow> GitHubCommit list outcome"

section \<open>Strings and numbers as template literals render them\<close>

definition digitChar :: "nat \<Rightarrow> char" where
  "digitChar d = ''0123456789'' ! d"

definition digitVal :: "char \<Rightarrow> nat" where
  "digitVal c = of_char c - 48"

definition isDigit :: "char \<Rightarrow> bool" where
  "isDigit c = (48 \<le> (of_char c :: nat) \<and> (of_char c :: nat) \<le> 57)"

text \<open>\<open>`${n}`\<close> for a non-negative integer \<open>n\<close>: its decimal digits.\<close>

fun showNat :: "nat \<Rightarrow> string" where
  "showNat n = (if n < 10 then [digitChar n] else showNat (n div 10) @ [digitChar (n mod 10)])"

declare showNat.simps [simp del]

definition readNat :: "string \<Rightarrow> nat" where
  "readNat s = foldl (\<lambda>a c. 10 * a + digitVal c) 0 s"

definition parseNum :: "string \<Rightarrow> nat option" where
  "parseNum s = (if s \<noteq> [] \<and> list_all isDigit s then Some (readNat s) else None)"

text \<open>\<open>`${x}`\<close> for an optional string: \<open>undefined\<close> is rendered as the word.\<close>

definition optStr :: "string option \<Rightarrow> string" where
  "optStr x = (case x of None \<Rightarrow> ''undefined'' | Some s \<Rightarrow> s)"

text \<open>
  Truthiness of an optional string: \<open>undefined\<close> and the empty string are falsy.
  \<open>present x\<close> is the string when \<open>x\<close> is truthy.
\<close>

definition present :: "string option \<Rightarrow> string option" where
  "present x = (case x of None \<Rightarrow> None | Some s \<Rightarrow> if s = [] then None else Some s)"

text \<open>\<open>month.padStart(2, "0")\<close>.\<close>

definition padStart2 :: "string \<Rightarrow> string" where
  "padStart2 s = replicate (2 - length s) (CHR ''0'') @ s"

definition pad :: "nat \<Rightarrow> nat \<Rightarrow> string" where
  "pad w n = replicate (w - length (showNat n)) (CHR ''0'') @ showNat n"

section \<open>The \<open>Date\<close> built-in\<close>

text \<open>
  A \<open>Date\<close> is its time value: milliseconds since the epoch, or \<open>None\<close> for an invalid
  date (\<open>NaN\<close>). Days are counted in the proleptic Gregorian calendar; months are
  numbered from 1 in \<open>daysFromCivil\<close> and \<open>civilFromDays\<close> and from 0 in the
  JavaScript interface (\<open>getMonth\<close>, the \<open>Date\<close> constructor). The range limit of
  time values (\<open>\<plusminus>8.64e15\<close> ms) is not modelled.
\<close>

type_synonym date = "int option"

definition msPerDay :: int where
  "msPerDay = 86400000"

definition isLeap :: "int \<Rightarrow> bool" where
  "isLeap y = (y mod 4 = 0 \<and> (y mod 100 \<noteq> 0 \<or> y mod 400 = 0))"

definition daysInMonth :: "int \<Rightarrow> int \<Rightarrow> int" where
  "daysInMonth y m =
     (if m = 2 then (if isLeap y then 29 else 28)
      else if m = 4 \<or> m = 6 \<or> m = 9 \<or> m = 11 then 30 else 31)"

definition daysFromCivil :: "int \<Rightarrow> int \<Rightarrow> int \<Rightarrow> int" where
  "daysFromCivil y m d =
     (let y1 = (if m \<le> 2 then y - 1 else y);
          era = y1 div 400;
          yoe = y1 - era * 400;
          doy = (153 * (if m > 2 then m - 3 else m + 9) + 2) div 5 + d - 1;
          doe = yoe * 365 + yoe div 4 - yoe div 100 + doy
      in era * 146097 + doe - 719468)"

definition civilFromDays :: "int \<Rightarrow> int \<times> int \<times> int" where
  "civilFromDays z0 =
     (let z = z0 + 719468;
          era = z div 146097;
          doe = z - era * 146097;
          yoe = (doe - doe div 1460 + doe div 36524 - doe div 146096) div 365;
          y = yoe + era * 400;
          doy = doe - (365 * yoe + yoe div 4 - yoe div 100);
          mp = (5 * doy + 2) div 153;
          d = doy - (153 * mp + 2) div 5 + 1;
          m = (if mp < 10 then mp + 3 else mp - 9)
      in (if m \<le> 2 then y + 1 else y, m, d))"

text \<open>
  \<open>MakeDay(year, month, date)\<close>: a month outside 0..11 carries into the year, and the
  date counts from the first of that month, so date 0 is the last day of the month
  before.
\<close>

definition makeDay :: "int \<Rightarrow> int \<Rightarrow> int \<Rightarrow> int" where
  "makeDay y m dt = daysFromCivil (y + m div 12) (m mod 12 + 1) 1 + dt - 1"

text \<open>
  \<open>new Date(year, month, date, hours, minutes, seconds)\<close>: the fields are local time,
  and a year from 0 to 99 means 1900 + year.
\<close>

definition newDateLocal :: "env \<Rightarrow> int \<Rightarrow> int \<Rightarrow> int \<Rightarrow> int \<Rightarrow> int \<Rightarrow> int \<Rightarrow> int" where
  "newDateLocal e y m d h mi s =
     (let yr = (if 0 \<le> y \<and> y \<le> 99 then 1900 + y else y)
      in makeDay yr m d * msPerDay + h * 3600000 + mi * 60000 + s * 1000 - tzOffset e)"

text \<open>\<open>getFullYear()\<close> and \<open>getMonth()\<close> read the local calendar.\<close>

definition getFullYear :: "env \<Rightarrow> int \<Rightarrow> int" where
  "getFullYear e t = fst (civilFromDays ((t + tzOffset e) div msPerDay))"

definition getMonth :: "env \<Rightarrow> int \<Rightarrow> int" where
  "getMonth e t = fst (snd (civilFromDays ((t + tzOffset e) div msPerDay))) - 1"

text \<open>
  \<open>new Date(string)\<close>. Two shapes are implemented: the date-only form \<open>YYYY-MM-DD\<close>,
  which is UTC, and the date-time form \<open>YYYY-MM-DDTHH:mm:ss\<close> with an optional
  \<open>.sss\<close> and an optional \<open>Z\<close>, which is local time without the \<open>Z\<close> and UTC with
  it. Every field must be in range. Any other string is left to \<open>otherDateParse\<close>.
\<close>

definition timeOfDay :: "string \<Rightarrow> (int \<times> string) option" where
  "timeOfDay r =
     (if length r \<ge> 9 \<and> r ! 0 = CHR ''T'' \<and> r ! 3 = CHR '':'' \<and> r ! 6 = CHR '':'' then
        (case (parseNum (take 2 (drop 1 r)), parseNum (take 2 (drop 4 r)),
               parseNum (take 2 (drop 7 r))) of
           (Some h, Some mi, Some s) \<Rightarrow>
             if h \<le> 23 \<and> mi \<le> 59 \<and> s \<le> 59 then
               (let t = int h * 3600000 + int mi * 60000 + int s * 1000; sfx = drop 9 r
                in if length sfx \<ge> 4 \<and> sfx ! 0 = CHR ''.'' then
                     (case parseNum (take 3 (drop 1 sfx)) of
                        Some ms \<Rightarrow> Some (t + int ms, drop 4 sfx)
                      | None \<Rightarrow> None)
                   else Some (t, sfx))
             else None
         | _ \<Rightarrow> None)
      else None)"

definition isoParse :: "env \<Rightarrow> string \<Rightarrow> int option" where
  "isoParse e s =
     (if length s \<ge> 10 \<and> s ! 4 = CHR ''-'' \<and> s ! 7 = CHR ''-'' then
        (case (parseNum (take 4 s), parseNum (take 2 (drop 5 s)),
               parseNum (take 2 (drop 8 s))) of
           (Some y, Some m, Some d) \<Rightarrow>
             if 1 \<le> m \<and> m \<le> 12 \<and> 1 \<le> d \<and> int d \<le> daysInMonth (int y) (int m) then
               (let day = daysFromCivil (int y) (int m) (int d); r = drop 10 s
                in if r = [] then Some (day * msPerDay)
                   else (case timeOfDay r of
                           Some (t, sfx) \<Rightarrow>
                             if sfx = ''Z'' then Some (day * msPerDay + t)
                             else if sfx = [] then Some (day * msPerDay + t - tzOffset e)
                             else None
                         | None \<Rightarrow> None))
             else None
         | _ \<Rightarrow> None)
      else None)"

definition dateParse :: "env \<Rightarrow> string \<Rightarrow> date" where
  "dateParse e s = (case isoParse e s of Some t \<Rightarrow> Some t | None \<Rightarrow> otherDateParse e s)"

text \<open>Relational operators on dates compare time values; with \<open>NaN\<close> they are false.\<close>

definition dateLt :: "date \<Rightarrow> date \<Rightarrow> bool" where
  "dateLt a b = (case (a, b) of (Some x, Some y) \<Rightarrow> x < y | _ \<Rightarrow> False)"

definition dateGt :: "date \<Rightarrow> date \<Rightarrow> bool" where
  "dateGt a b = dateLt b a"

definition yearStr :: "int \<Rightarrow> string" where
  "yearStr y =
     (if 0 \<le> y \<and> y \<le> 9999 then pad 4 (nat y)
      else (if y < 0 then ''-'' else ''+'') @ pad 6 (nat \<bar>y\<bar>))"

definition isoString :: "int \<Rightarrow> string" where
  "isoString t =
     (case civilFromDays (t div msPerDay) of (y, m, d) \<Rightarrow>
        (let r = t mod msPerDay
         in yearStr y @ ''-'' @ pad 2 (nat m) @ ''-'' @ pad 2 (nat d) @ ''T''
            @ pad 2 (nat (r div 3600000)) @ '':'' @ pad 2 (nat (r mod 3600000 div 60000))
            @ '':'' @ pad 2 (nat (r mod 60000 div 1000)) @ ''.'' @ pad 3 (nat (r mod 1000))
            @ ''Z''))"

text \<open>\<open>toISOString()\<close> throws a \<open>RangeError\<close> on an invalid date.\<close>

definition toISOString :: "date \<Rightarrow> error + string" where
  "toISOString d =
     (case d of None \<Rightarrow> Inl (RangeError ''Invalid time value'') | Some t \<Rightarrow> Inr (isoString t))"

section \<open>Rate governor\<close>

text \<open>
  \<open>sleep(ms)\<close> resolves after \<open>ms\<close> milliseconds of the simulated clock; a timer with
  a non-positive delay fires at once.
\<close>

definition sleep :: "int \<Rightarrow> service \<Rightarrow> service" where
  "sleep ms st = st\<lparr>clock := clock st + max 0 ms\<rparr>"

text \<open>\<open>requestCount >= RATE_LIMIT_PER_HOUR\<close>; a comparison with \<open>NaN\<close> is false.\<close>

definition reachedLimit :: "int \<Rightarrow> int option \<Rightarrow> bool" where
  "reachedLimit n lim = (case lim of None \<Rightarrow> False | Some l \<Rightarrow> n \<ge> l)"

definition checkRateLimit :: "env \<Rightarrow> service \<Rightarrow> service" where
  "checkRateLimit e st =
     (let now = clock st;
          timeSinceReset = now - lastResetTime st;
          st1 = (if timeSinceReset \<ge> 3600000
                 then st\<lparr>requestCount := 0, lastResetTime := now\<rparr> else st)
      in if reachedLimit (requestCount st1) (RATE_LIMIT_PER_HOUR e) then
           (let waitTime = 3600000 - timeSinceReset;
                st2 = st1\<lparr>logged := logged st1 @ [SelfRateLimitWait (- ((- waitTime) div 1000))]\<rparr>;
                st3 = sleep waitTime st2
            in st3\<lparr>requestCount := 0, lastResetTime := clock st3\<rparr>)
         else st1)"

text \<open>The request interceptor: \<open>await this.checkRateLimit(); this.requestCount++\<close>.\<close>

definition reserve :: "env \<Rightarrow> service \<Rightarrow> service" where
  "reserve e st = (let st1 = checkRateLimit e st in st1\<lparr>requestCount := requestCount st1 + 1\<rparr>)"

section \<open>Cache keys\<close>

text \<open>
  The three template literals: \<open>`repo:${org}:${repo}`\<close>,
  \<open>`commits:${org}:${repo}:${since}:${until}:${page}`\<close> and
  \<open>`contributors:${org}:${repo}:${year}:${month || "all"}`\<close>.
\<close>

definition repoKey :: "string \<Rightarrow> string \<Rightarrow> string" where
  "repoKey org repo = ''repo:'' @ org @ '':'' @ repo"

definition commitsKey :: "string \<Rightarrow> string \<Rightarrow> string option \<Rightarrow> string option \<Rightarrow> nat \<Rightarrow> string" where
  "commitsKey org repo snc utl pg =
     ''commits:'' @ org @ '':'' @ repo @ '':'' @ optStr snc @ '':'' @ optStr utl @ '':'' @ showNat pg"

definition contributorsKey :: "string \<Rightarrow> string \<Rightarrow> string \<Rightarrow> string option \<Rightarrow> string" where
  "contributorsKey org repo year month =
     ''contributors:'' @ org @ '':'' @ repo @ '':'' @ year @ '':''
       @ (case present month of Some m \<Rightarrow> m | None \<Rightarrow> ''all'')"

text \<open>
  The logical requests that are cached, one constructor per kind, and the key each is
  stored under.
\<close>

datatype logical_request =
    RepositoryLookup string string
  | CommitPage string string "string option" "string option" nat
  | Analysis string string string "string option"

fun cacheKeyOf :: "logical_request \<Rightarrow> string" where
  "cacheKeyOf (RepositoryLookup org repo) = repoKey org repo"
| "cacheKeyOf (CommitPage org repo snc utl pg) = commitsKey org repo snc utl pg"
| "cacheKeyOf (Analysis org repo year month) = contributorsKey org repo year month"

definition colons :: "string \<Rightarrow> nat" where
  "colons s = count_list s (CHR '':'')"

text \<open>
  Requests whose parameters cannot be confused with the separator: names and year
  without a colon, \<open>since\<close> and \<open>until\<close> present with the two colons of an ISO instant
  (what \<open>toISOString\<close> produces), and a month that is given as neither the empty
  string nor the word \<open>all\<close>.
\<close>

fun separable :: "logical_request \<Rightarrow> bool" where
  "separable (RepositoryLookup org repo) = (colons org = 0)"
| "separable (CommitPage org repo snc utl pg) =
     (colons org = 0 \<and> colons repo = 0
      \<and> (case snc of None \<Rightarrow> False | Some s \<Rightarrow> colons s = 2)
      \<and> (case utl of None \<Rightarrow> False | Some u \<Rightarrow> colons u = 2))"
| "separable (Analysis org repo year month) =
     (colons org = 0 \<and> colons repo = 0 \<and> colons year = 0
      \<and> month \<noteq> Some [] \<and> month \<noteq> Some ''all'')"

section \<open>TTL cache\<close>

text \<open>
  NodeCache as the service uses it. \<open>get\<close> misses on an absent key and on an entry whose
  expiry instant is non-zero and in the past. \<open>set\<close> takes a time to live in seconds
  (the default \<open>stdTTL\<close> when none is given); a time to live of 0 never expires. The
  hit and miss counters and the periodic sweep are not modelled.
\<close>

definition cacheGet :: "service \<Rightarrow> string \<Rightarrow> cache_value option" where
  "cacheGet st key =
     (case cache st key of
        None \<Rightarrow> None
      | Some en \<Rightarrow> if expires en \<noteq> 0 \<and> expires en < clock st then None else Some (stored en))"

definition cacheSet :: "env \<Rightarrow> string \<Rightarrow> cache_value \<Rightarrow> int option \<Rightarrow> service \<Rightarrow> service" where
  "cacheSet e key v ttl st =
     (let t = (case ttl of None \<Rightarrow> stdTTL e | Some x \<Rightarrow> x);
          livetime = (if t = 0 then 0 else clock st + t * 1000)
      in st\<lparr>cache := (cache st)(key \<mapsto> \<lparr>stored = v, expires = livetime\<rparr>)\<rparr>)"

section \<open>Transport\<close>

text \<open>
  \<open>client.get\<close>: the request interceptor reserves budget, the request is sent and
  recorded, and the call settles with what the platform answers. The response
  interceptor (the low-quota warning, and the wait-and-resend on a quota or transient
  failure) is below this model: an outcome is what \<open>client.get\<close> finally settles to.
\<close>

definition clientGetRepo :: "env \<Rightarrow> string \<Rightarrow> service \<Rightarrow> Repository outcome \<times> service" where
  "clientGetRepo e url st =
     (let st1 = reserve e st
      in (repoApi e (calls st1) url, st1\<lparr>calls := calls st1 @ [Get url None]\<rparr>))"

definition clientGetCommits :: "env \<Rightarrow> string \<Rightarrow> params \<Rightarrow> service \<Rightarrow> GitHubCommit list outcome \<times> service" where
  "clientGetCommits e url ps st =
     (let st1 = reserve e st
      in (commitsApi e (calls st1) url ps, st1\<lparr>calls := calls st1 @ [Get url (Some ps)]\<rparr>))"

section \<open>Repository lookup and commit pages\<close>

text \<open>
  Each reader of the cache takes the stored value at its own kind of key. Every value is
  stored under a key of its kind, and the three kinds of key have different prefixes, so
  a reader never finds a value of another kind: in a cache that is \<open>cacheKinded\<close>, which
  the empty cache is and every operation of the service preserves, the second branch
  of each reader is taken only on a miss.
\<close>

definition kindOfKey :: "string \<Rightarrow> cache_value \<Rightarrow> bool" where
  "kindOfKey k v =
     (case v of
        VRepository _ \<Rightarrow> take 5 k = ''repo:''
      | VCommits _ \<Rightarrow> take 8 k = ''commits:''
      | VContributorData _ \<Rightarrow> take 13 k = ''contributors:'')"

definition cacheKinded :: "service \<Rightarrow> bool" where
  "cacheKinded st = (\<forall>k en. cache st k = Some en \<longrightarrow> kindOfKey k (stored en))"

definition getRepository :: "env \<Rightarrow> string \<Rightarrow> string \<Rightarrow> service \<Rightarrow> (error + Repository) \<times> service" where
  "getRepository e org repo st =
     (let cacheKey = repoKey org repo
      in case cacheGet st cacheKey of
           Some (VRepository cached) \<Rightarrow> (Inr cached, st)
         | _ \<Rightarrow>
           (case clientGetRepo e (''/repos/'' @ org @ ''/'' @ repo) st of
              (Resolved repository, st1) \<Rightarrow>
                (Inr repository, cacheSet e cacheKey (VRepository repository) None st1)
            | (Rejected status msg, st1) \<Rightarrow>
                if status = Some 404
                then (Inl (Error (''Repository '' @ org @ ''/'' @ repo @ '' not found'')), st1)
                else (Inl (Error (''Failed to fetch repository: '' @ msg)), st1)))"

definition commitsUrl :: "string \<Rightarrow> string \<Rightarrow> string" where
  "commitsUrl org repo = ''/repos/'' @ org @ ''/'' @ repo @ ''/commits''"

definition pageParams :: "string option \<Rightarrow> string option \<Rightarrow> nat \<Rightarrow> params" where
  "pageParams snc utl pg = \<lparr>page = pg, per_page = 100, since = present snc, until = present utl\<rparr>"

text \<open>
  The time to live of a commit page: 300 s when \<open>since\<close> is later than 24 hours before
  now, 3600 s otherwise.
\<close>

definition cacheTime :: "env \<Rightarrow> string option \<Rightarrow> int \<Rightarrow> int" where
  "cacheTime e snc now =
     (case present snc of
        Some s \<Rightarrow> if dateGt (dateParse e s) (Some (now - 86400000)) then 300 else 3600
      | None \<Rightarrow> 3600)"

definition getCommits ::
  "env \<Rightarrow> string \<Rightarrow> string \<Rightarrow> string option \<Rightarrow> string option \<Rightarrow> nat \<Rightarrow> service
     \<Rightarrow> (error + GitHubCommit list) \<times> service" where
  "getCommits e org repo snc utl pg st =
     (let cacheKey = commitsKey org repo snc utl pg
      in case cacheGet st cacheKey of
           Some (VCommits cached) \<Rightarrow> (Inr cached, st)
         | _ \<Rightarrow>
           (case clientGetCommits e (commitsUrl org repo) (pageParams snc utl pg) st of
              (Resolved commits, st1) \<Rightarrow>
                (Inr commits,
                 cacheSet e cacheKey (VCommits commits) (Some (cacheTime e snc (clock st1))) st1)
            | (Rejected status msg, st1) \<Rightarrow>
                if status = Some 404
                then (Inl (Error (''Repository '' @ org @ ''/'' @ repo @ '' not found'')), st1)
                else if status = Some 409 then (Inr [], st1)
                else (Inl (Error (''Failed to fetch commits: '' @ msg)), st1)))"

section \<open>Pagination\<close>

text \<open>
  One round of the \<open>while (hasMore)\<close> loop of \<open>getAllCommitsPaginated\<close>, after the page
  has arrived: the new \<open>allCommits\<close>, \<open>page\<close> and \<open>hasMore\<close>.
\<close>

definition afterPage ::
  "GitHubCommit list \<Rightarrow> nat \<Rightarrow> GitHubCommit list \<Rightarrow> GitHubCommit list \<times> nat \<times> bool" where
  "afterPage allCommits pg commits =
     (if length commits = 0 then (allCommits, pg, False)
      else (allCommits @ commits, pg + 1, \<not> length commits < 100))"

function paginate ::
  "env \<Rightarrow> string \<Rightarrow> string \<Rightarrow> string \<Rightarrow> string \<Rightarrow> nat \<Rightarrow> GitHubCommit list \<Rightarrow> service
     \<Rightarrow> (error + GitHubCommit list) \<times> service" where
  "paginate e org repo snc utl pg allCommits st =
     (case getCommits e org repo (Some snc) (Some utl) pg st of
        (Inl err, st1) \<Rightarrow> (Inl err, st1)
      | (Inr commits, st1) \<Rightarrow>
          (case afterPage allCommits pg commits of
             (allCommits1, pg1, hasMore) \<Rightarrow>
               if pg1 > 1000
               then (Inr allCommits1, st1\<lparr>warned := warned st1 @ [MaxPageLimit org repo]\<rparr>)
               else if hasMore then paginate e org repo snc utl pg1 allCommits1 st1
               else (Inr allCommits1, st1)))"
  by pat_completeness auto
termination
  by (relation "measure (\<lambda>(e, org, repo, snc, utl, pg, allCommits, st). 1001 - pg)")
     (auto simp: afterPage_def split: if_splits)

declare paginate.simps [simp del]

definition getAllCommitsPaginated ::
  "env \<Rightarrow> string \<Rightarrow> string \<Rightarrow> string \<Rightarrow> string \<Rightarrow> service
     \<Rightarrow> (error + GitHubCommit list) \<times> service" where
  "getAllCommitsPaginated e org repo snc utl st = paginate e org repo snc utl 1 [] st"

text \<open>
  The page at which the aggregation of a page sequence \<open>pg\<close> stops when it starts at
  page \<open>p\<close>: the first page from \<open>p\<close> on, below the cap of 1000, that has fewer than 100
  commits, and the cap when there is none.
\<close>

definition stopFrom :: "(nat \<Rightarrow> GitHubCommit list) \<Rightarrow> nat \<Rightarrow> nat" where
  "stopFrom pg p =
     (case find (\<lambda>q. length (pg q) < 100) [p..<1000] of Some q \<Rightarrow> q | None \<Rightarrow> 1000)"

definition pageRequest :: "string \<Rightarrow> string \<Rightarrow> string \<Rightarrow> string \<Rightarrow> nat \<Rightarrow> request" where
  "pageRequest org repo snc utl q =
     Get (commitsUrl org repo) (Some (pageParams (Some snc) (Some utl) q))"

section \<open>Novelty analysis\<close>

text \<open>
  The period of the analysis, before clamping. With a month, the start is the parsed
  \<open>`${year}-${month.padStart(2, "0")}-01`\<close> and the end is
  \<open>new Date(startDate.getFullYear(), startDate.getMonth() + 1, 0, 23, 59, 59)\<close>;
  without, the two parsed strings \<open>`${year}-01-01`\<close> and \<open>`${year}-12-31T23:59:59`\<close>.
\<close>

definition periodBounds :: "env \<Rightarrow> string \<Rightarrow> string option \<Rightarrow> date \<times> date" where
  "periodBounds e year month =
     (case present month of
        Some m \<Rightarrow>
          (let startDate = dateParse e (year @ ''-'' @ padStart2 m @ ''-01'');
               endDate = (case startDate of
                            None \<Rightarrow> None
                          | Some t \<Rightarrow>
                              Some (newDateLocal e (getFullYear e t) (getMonth e t + 1) 0 23 59 59))
           in (startDate, endDate))
      | None \<Rightarrow> (dateParse e (year @ ''-01-01''), dateParse e (year @ ''-12-31T23:59:59'')))"

definition clampStart :: "date \<Rightarrow> date \<Rightarrow> date" where
  "clampStart startDate repoCreatedAt =
     (if dateLt startDate repoCreatedAt then repoCreatedAt else startDate)"

text \<open>
  A \<open>Set<string>\<close> is the list of its members in insertion order; only membership and
  \<open>size\<close> are read.
\<close>

definition setAdd :: "string list \<Rightarrow> string \<Rightarrow> string list" where
  "setAdd s x = (if x \<in> set s then s else s @ [x])"

text \<open>\<open>commit.author?.login\<close> when it is truthy: the author is not null and the login not empty.\<close>

definition authorLogin :: "GitHubCommit \<Rightarrow> string option" where
  "authorLogin c =
     (case author c of None \<Rightarrow> None | Some a \<Rightarrow> if login a = [] then None else Some (login a))"

text \<open>The bodies of the two \<open>forEach\<close> loops.\<close>

definition addExisting :: "string list \<Rightarrow> GitHubCommit \<Rightarrow> string list" where
  "addExisting existingContributors c =
     (case authorLogin c of
        Some l \<Rightarrow> setAdd existingContributors l
      | None \<Rightarrow> existingContributors)"

definition addNew :: "string list \<times> string list \<Rightarrow> GitHubCommit \<Rightarrow> string list \<times> string list" where
  "addNew sets c =
     (case sets of (existingContributors, newContributorsInPeriod) \<Rightarrow>
        (case authorLogin c of
           Some l \<Rightarrow>
             if l \<notin> set existingContributors
             then (setAdd existingContributors l, setAdd newContributorsInPeriod l)
             else sets
         | None \<Rightarrow> sets))"

text \<open>The contributors before the period: fetched only when the start is after the creation.\<close>

definition baselineContributors ::
  "env \<Rightarrow> string \<Rightarrow> string \<Rightarrow> date \<Rightarrow> date \<Rightarrow> service \<Rightarrow> (error + string list) \<times> service" where
  "baselineContributors e org repo repoCreatedAt startDate st =
     (if dateGt startDate repoCreatedAt then
        (case toISOString repoCreatedAt of
           Inl err \<Rightarrow> (Inl err, st)
         | Inr snc \<Rightarrow>
           (case toISOString startDate of
              Inl err \<Rightarrow> (Inl err, st)
            | Inr utl \<Rightarrow>
              (case getAllCommitsPaginated e org repo snc utl st of
                 (Inl err, st1) \<Rightarrow> (Inl err, st1)
               | (Inr beforePeriodCommits, st1) \<Rightarrow>
                   (Inr (foldl addExisting [] beforePeriodCommits), st1))))
      else (Inr [], st))"

definition fetchPeriod ::
  "env \<Rightarrow> string \<Rightarrow> string \<Rightarrow> date \<Rightarrow> date \<Rightarrow> service \<Rightarrow> (error + GitHubCommit list) \<times> service" where
  "fetchPeriod e org repo startDate endDate st =
     (case toISOString startDate of
        Inl err \<Rightarrow> (Inl err, st)
      | Inr snc \<Rightarrow>
        (case toISOString endDate of
           Inl err \<Rightarrow> (Inl err, st)
         | Inr utl \<Rightarrow> getAllCommitsPaginated e org repo snc utl st))"

text \<open>The \<open>try\<close> block of \<open>getNewContributorsByMonth\<close>.\<close>

definition analyse ::
  "env \<Rightarrow> string \<Rightarrow> string \<Rightarrow> string \<Rightarrow> string option \<Rightarrow> service
     \<Rightarrow> (error + ContributorData) \<times> service" where
  "analyse e org repo year month st =
     (case getRepository e org repo st of
        (Inl err, st1) \<Rightarrow> (Inl err, st1)
      | (Inr repository, st1) \<Rightarrow>
        (let repoCreatedAt = dateParse e (created_at repository);
             startDate = clampStart (fst (periodBounds e year month)) repoCreatedAt;
             endDate = snd (periodBounds e year month)
         in case baselineContributors e org repo repoCreatedAt startDate st1 of
              (Inl err, st2) \<Rightarrow> (Inl err, st2)
            | (Inr existingContributors, st2) \<Rightarrow>
              (case fetchPeriod e org repo startDate endDate st2 of
                 (Inl err, st3) \<Rightarrow> (Inl err, st3)
               | (Inr periodCommits, st3) \<Rightarrow>
                 (let newContributorsInPeriod =
                        snd (foldl addNew (existingContributors, []) periodCommits);
                      result = \<lparr>cd_org = org, cd_repository = repo, cd_year = year,
                                cd_month = present month,
                                newContributors = length newContributorsInPeriod\<rparr>
                  in (Inr result,
                      cacheSet e (contributorsKey org repo year month)
                        (VContributorData result) None st3)))))"

definition getNewContributorsByMonth ::
  "env \<Rightarrow> string \<Rightarrow> string \<Rightarrow> string \<Rightarrow> string option \<Rightarrow> service
     \<Rightarrow> (error + ContributorData) \<times> service" where
  "getNewContributorsByMonth e org repo year month st =
     (case cacheGet st (contributorsKey org repo year month) of
        Some (VContributorData cached) \<Rightarrow> (Inr cached, st)
      | _ \<Rightarrow>
        (case analyse e org repo year month st of
           (Inl err, st1) \<Rightarrow>
             (Inl (Error (''Failed to analyze contributors: '' @ message err)), st1)
         | (Inr result, st1) \<Rightarrow> (Inr result, st1)))"

text \<open>The logins a list of commits carries.\<close>

definition logins :: "GitHubCommit list \<Rightarrow> string set" where
  "logins cs = set (List.map_filter authorLogin cs)"

section \<open>Example scenarios\<close>

text \<open>Commits by a named account, and a commit the platform could not link to an account.\<close>

definition commitBy :: "string \<Rightarrow> GitHubCommit" where
  "commitBy l =
     \<lparr>sha = ''0f3a'', commit_author = \<lparr>author_name = l, author_email = l @ ''@example.org'',
          author_date = ''2021-06-10T10:00:00Z''\<rparr>,
      author = Some \<lparr>login = l, account_id = 7\<rparr>\<rparr>"

definition anonymousCommit :: GitHubCommit where
  "anonymousCommit =
     \<lparr>sha = ''77c1'', commit_author = \<lparr>author_name = ''someone'',
          author_email = ''someone@example.org'', author_date = ''2021-06-11T10:00:00Z''\<rparr>,
      author = None\<rparr>"

definition repoCreated :: "string \<Rightarrow> Repository" where
  "repoCreated t = \<lparr>repo_name = ''javascript'', full_name = ''airbnb/javascript'',
      created_at = t, default_branch = ''main''\<rparr>"

text \<open>
  A service just started at some instant of November 2023, and a process in UTC with
  the default configuration whose platform knows no repository.
\<close>

definition freshService :: service where
  "freshService = \<lparr>cache = Map.empty, requestCount = 0, lastResetTime = 1700000000000,
      clock = 1700000000000, calls = [], logged = [], warned = []\<rparr>"

definition baseEnv :: env where
  "baseEnv = \<lparr>RATE_LIMIT_PER_HOUR = Some 5000, stdTTL = 86400, tzOffset = 0,
      otherDateParse = (\<lambda>_. None),
      repoApi = (\<lambda>_ _. Rejected (Some 404) ''Request failed with status code 404''),
      commitsApi = (\<lambda>_ _ _. Rejected (Some 404) ''Request failed with status code 404'')\<rparr>"

text \<open>
  The scenario of the specification: a repository created \<open>2020-01-01T00:00:00Z\<close> whose
  commits before June 2021 are by A and B, and whose commits of the window starting
  \<open>2021-06-01\<close> are by B, C, C and D.
\<close>

definition scenarioEnv :: env where
  "scenarioEnv = baseEnv\<lparr>
      repoApi := (\<lambda>_ _. Resolved (repoCreated ''2020-01-01T00:00:00Z'')),
      commitsApi := (\<lambda>_ _ ps.
        if page ps \<noteq> 1 then Resolved []
        else if since ps = Some ''2021-06-01T00:00:00.000Z''
        then Resolved [commitBy ''B'', commitBy ''C'', commitBy ''C'', commitBy ''D'']
        else Resolved [commitBy ''A'', commitBy ''B''])\<rparr>"

text \<open>A repository created in the middle of June 2021.\<close>

definition juneEnv :: env where
  "juneEnv = baseEnv\<lparr>repoApi := (\<lambda>_ _. Resolved (repoCreated ''2021-06-15T12:00:00Z''))\<rparr>"

text \<open>A platform that answers every commit listing with 409, and one that serves pages of 100, 100 and 37 commits.\<close>

definition emptyRepoEnv :: env where
  "emptyRepoEnv = baseEnv\<lparr>commitsApi := (\<lambda>_ _ _. Rejected (Some 409) ''Git Repository is empty.'')\<rparr>"

definition threePages :: "nat \<Rightarrow> GitHubCommit list" where
  "threePages q = replicate (if q = 1 \<or> q = 2 then 100 else if q = 3 then 37 else 0) (commitBy ''A'')"

definition threePagesEnv :: env where
  "threePagesEnv = baseEnv\<lparr>commitsApi := (\<lambda>_ _ ps. Resolved (threePages (page ps)))\<rparr>"

text \<open>The process of the scenario in a zone five hours behind UTC.\<close>

definition bogotaEnv :: env where
  "bogotaEnv = baseEnv\<lparr>tzOffset := - 18000000\<rparr>"

text \<open>A service whose cache holds the yearly result of \<open>airbnb/javascript\<close> for 2023.\<close>

definition cachedResult :: ContributorData where
  "cachedResult = \<lparr>cd_org = ''airbnb'', cd_repository = ''javascript'', cd_year = ''2023'',
      cd_month = None, newContributors = 15\<rparr>"

definition populatedService :: service where
  "populatedService = freshService\<lparr>cache :=
      [''contributors:airbnb:javascript:2023:all'' \<mapsto>
         \<lparr>stored = VContributorData cachedResult, expires = 1700086400000\<rparr>]\<rparr>"

section \<open>Decimal rendering and the separator\<close>

lemma digitVal_digitChar: "d < 10 \<Longrightarrow> digitVal (digitChar d) = d"
proof -
  assume "d < 10"
  then have "d = 0 \<or> d = 1 \<or> d = 2 \<or> d = 3 \<or> d = 4 \<or> d = 5 \<or> d = 6 \<or> d = 7 \<or> d = 8 \<or> d = 9"
    by arith
  then show ?thesis
    by (auto simp: digitChar_def digitVal_def)
qed

lemma readNat_showNat: "readNat (showNat n) = n"
proof (induction n rule: showNat.induct)
  case (1 n)
  show ?case
  proof (cases "n < 10")
    case True
    then show ?thesis by (subst showNat.simps) (simp add: readNat_def digitVal_digitChar)
  next
    case False
    with 1 have "readNat (showNat (n div 10)) = n div 10" by simp
    with False show ?thesis
      by (subst showNat.simps) (simp add: readNat_def digitVal_digitChar)
  qed
qed

lemma showNat_inj: "showNat a = showNat b \<Longrightarrow> a = b"
  by (metis readNat_showNat)

lemma colon_split:
  "a1 @ CHR '':'' # b1 = a2 @ CHR '':'' # b2 \<Longrightarrow> colons a1 = colons a2 \<Longrightarrow> a1 = a2 \<and> b1 = b2"
proof (induction a1 arbitrary: a2)
  case Nil
  then show ?case by (cases a2) (auto simp: colons_def split: if_splits)
next
  case (Cons c a1)
  then show ?case by (cases a2) (auto simp: colons_def split: if_splits)
qed

lemma repoKey_inj:
  assumes "repoKey o1 r1 = repoKey o2 r2" "colons o1 = 0" "colons o2 = 0"
  shows "o1 = o2 \<and> r1 = r2"
  using assms colon_split [of o1 r1 o2 r2] by (simp add: repoKey_def)

lemma commitsKey_inj:
  assumes "commitsKey o1 r1 (Some s1) (Some u1) p1 = commitsKey o2 r2 (Some s2) (Some u2) p2"
    and "colons o1 = 0" "colons o2 = 0" "colons r1 = 0" "colons r2 = 0"
    and "colons s1 = 2" "colons s2 = 2" "colons u1 = 2" "colons u2 = 2"
  shows "o1 = o2 \<and> r1 = r2 \<and> s1 = s2 \<and> u1 = u2 \<and> p1 = p2"
proof -
  from assms(1) have k: "o1 @ CHR '':'' # (r1 @ CHR '':'' # (s1 @ CHR '':'' # (u1 @ CHR '':'' # showNat p1)))
      = o2 @ CHR '':'' # (r2 @ CHR '':'' # (s2 @ CHR '':'' # (u2 @ CHR '':'' # showNat p2)))"
    by (simp add: commitsKey_def optStr_def)
  from colon_split [OF k] assms have a: "o1 = o2"
    and k2: "r1 @ CHR '':'' # (s1 @ CHR '':'' # (u1 @ CHR '':'' # showNat p1))
      = r2 @ CHR '':'' # (s2 @ CHR '':'' # (u2 @ CHR '':'' # showNat p2))"
    by simp_all
  from colon_split [OF k2] assms have b: "r1 = r2"
    and k3: "s1 @ CHR '':'' # (u1 @ CHR '':'' # showNat p1) = s2 @ CHR '':'' # (u2 @ CHR '':'' # showNat p2)"
    by simp_all
  from colon_split [OF k3] assms have c: "s1 = s2"
    and k4: "u1 @ CHR '':'' # showNat p1 = u2 @ CHR '':'' # showNat p2"
    by simp_all
  from colon_split [OF k4] assms have d: "u1 = u2" and "showNat p1 = showNat p2"
    by simp_all
  with a b c show ?thesis by (simp add: showNat_inj)
qed

lemma contributorsKey_inj:
  assumes "contributorsKey o1 r1 y1 m1 = contributorsKey o2 r2 y2 m2"
    and "colons o1 = 0" "colons o2 = 0" "colons r1 = 0" "colons r2 = 0"
    and "colons y1 = 0" "colons y2 = 0"
    and "m1 \<noteq> Some []" "m1 \<noteq> Some ''all''" "m2 \<noteq> Some []" "m2 \<noteq> Some ''all''"
  shows "o1 = o2 \<and> r1 = r2 \<and> y1 = y2 \<and> m1 = m2"
proof -
  let ?t1 = "case present m1 of Some m \<Rightarrow> m | None \<Rightarrow> ''all''"
  let ?t2 = "case present m2 of Some m \<Rightarrow> m | None \<Rightarrow> ''all''"
  from assms(1) have k: "o1 @ CHR '':'' # (r1 @ CHR '':'' # (y1 @ CHR '':'' # ?t1))
      = o2 @ CHR '':'' # (r2 @ CHR '':'' # (y2 @ CHR '':'' # ?t2))"
    by (simp add: contributorsKey_def)
  from colon_split [OF k] assms have a: "o1 = o2"
    and k2: "r1 @ CHR '':'' # (y1 @ CHR '':'' # ?t1) = r2 @ CHR '':'' # (y2 @ CHR '':'' # ?t2)"
    by simp_all
  from colon_split [OF k2] assms have b: "r1 = r2"
    and k3: "y1 @ CHR '':'' # ?t1 = y2 @ CHR '':'' # ?t2"
    by simp_all
  from colon_split [OF k3] assms have c: "y1 = y2" and t: "?t1 = ?t2"
    by simp_all
  from t assms(8-11) have "m1 = m2"
    by (auto simp: present_def split: option.splits if_splits)
  with a b c show ?thesis by simp
qed

lemma key_kinds_differ:
  "repoKey o1 r1 \<noteq> commitsKey o2 r2 s u p"
  "repoKey o1 r1 \<noteq> contributorsKey o2 r2 y m"
  "commitsKey o2 r2 s u p \<noteq> contributorsKey o3 r3 y m"
  by (simp_all add: repoKey_def commitsKey_def contributorsKey_def)

section \<open>Cache keys: collisions and where there are none\<close>

text \<open>
  Two different analysis requests with the same key: the year \<open>2021:6\<close> without a
  month, and the year \<open>2021\<close> with the month \<open>6:all\<close>. Both pass \<open>validateParams\<close>,
  whose \<open>parseInt\<close> reads the leading digits only.
\<close>

theorem key_collision:
  "cacheKeyOf (Analysis ''o'' ''r'' ''2021:6'' None) = cacheKeyOf (Analysis ''o'' ''r'' ''2021'' (Some ''6:all''))
   \<and> Analysis ''o'' ''r'' ''2021:6'' None \<noteq> Analysis ''o'' ''r'' ''2021'' (Some ''6:all'')"
  by (simp add: contributorsKey_def present_def)

text \<open>
  Claim C9, amended. Among separable requests (names and year without a colon,
  \<open>since\<close> and \<open>until\<close> present with two colons each, the month neither empty nor
  \<open>all\<close>) key construction is injective, within each kind of request and across the
  kinds.
\<close>

theorem separable_keys_injective:
  assumes "separable r1" and "separable r2" and "cacheKeyOf r1 = cacheKeyOf r2"
  shows "r1 = r2"
proof (cases r1)
  case a: (RepositoryLookup o1 n1)
  show ?thesis
  proof (cases r2)
    case (RepositoryLookup o2 n2)
    with a assms repoKey_inj [of o1 n1 o2 n2] show ?thesis by simp
  next
    case (CommitPage o2 n2 s2 u2 p2)
    with a assms key_kinds_differ(1) [of o1 n1 o2 n2 s2 u2 p2] show ?thesis by simp
  next
    case (Analysis o2 n2 y2 m2)
    with a assms key_kinds_differ(2) [of o1 n1 o2 n2 y2 m2] show ?thesis by simp
  qed
next
  case a: (CommitPage o1 n1 s1 u1 p1)
  show ?thesis
  proof (cases r2)
    case (RepositoryLookup o2 n2)
    with a assms key_kinds_differ(1) [of o2 n2 o1 n1 s1 u1 p1] show ?thesis by simp
  next
    case b: (CommitPage o2 n2 s2 u2 p2)
    from a assms(1) obtain x1 y1 where s1: "s1 = Some x1" "u1 = Some y1" "colons x1 = 2" "colons y1 = 2"
      "colons o1 = 0" "colons n1 = 0"
      by (auto split: option.splits)
    from b assms(2) obtain x2 y2 where s2: "s2 = Some x2" "u2 = Some y2" "colons x2 = 2" "colons y2 = 2"
      "colons o2 = 0" "colons n2 = 0"
      by (auto split: option.splits)
    from a b assms(3) s1 s2 have "commitsKey o1 n1 (Some x1) (Some y1) p1 = commitsKey o2 n2 (Some x2) (Some y2) p2"
      by simp
    from commitsKey_inj [OF this] s1 s2 a b show ?thesis by simp
  next
    case (Analysis o2 n2 y2 m2)
    with a assms key_kinds_differ(3) [of o1 n1 s1 u1 p1 o2 n2 y2 m2] show ?thesis by simp
  qed
next
  case a: (Analysis o1 n1 y1 m1)
  show ?thesis
  proof (cases r2)
    case (RepositoryLookup o2 n2)
    with a assms key_kinds_differ(2) [of o2 n2 o1 n1 y1 m1] show ?thesis by simp
  next
    case (CommitPage o2 n2 s2 u2 p2)
    with a assms key_kinds_differ(3) [of o2 n2 s2 u2 p2 o1 n1 y1 m1] show ?thesis by simp
  next
    case b: (Analysis o2 n2 y2 m2)
    from a b assms(3) have "contributorsKey o1 n1 y1 m1 = contributorsKey o2 n2 y2 m2"
      by simp
    from contributorsKey_inj [OF this] a b assms(1,2) show ?thesis by simp
  qed
qed

theorem separable_keys_injective_witness:
  "cacheKeyOf (CommitPage ''airbnb'' ''javascript'' (Some ''2020-01-01T00:00:00.000Z'')
       (Some ''2021-06-01T00:00:00.000Z'') 1)
   \<noteq> cacheKeyOf (CommitPage ''airbnb'' ''javascript'' (Some ''2020-01-01T00:00:00.000Z'')
       (Some ''2021-06-01T00:00:00.000Z'') 2)"
proof
  assume "cacheKeyOf (CommitPage ''airbnb'' ''javascript'' (Some ''2020-01-01T00:00:00.000Z'')
       (Some ''2021-06-01T00:00:00.000Z'') 1)
   = cacheKeyOf (CommitPage ''airbnb'' ''javascript'' (Some ''2020-01-01T00:00:00.000Z'')
       (Some ''2021-06-01T00:00:00.000Z'') 2)"
  then have "CommitPage ''airbnb'' ''javascript'' (Some ''2020-01-01T00:00:00.000Z'')
       (Some ''2021-06-01T00:00:00.000Z'') 1
    = CommitPage ''airbnb'' ''javascript'' (Some ''2020-01-01T00:00:00.000Z'')
       (Some ''2021-06-01T00:00:00.000Z'') 2"
    by (rule separable_keys_injective [rotated 2]) (simp_all add: colons_def)
  then show False by simp
qed

section \<open>The contributor sets\<close>

lemma logins_Nil: "logins [] = {}"
  by (simp add: logins_def map_filter_simps)

lemma logins_snoc: "logins (cs @ [c]) = logins cs \<union> (case authorLogin c of None \<Rightarrow> {} | Some l \<Rightarrow> {l})"
  by (auto simp: logins_def map_filter_def split: option.splits)

lemma logins_Cons: "logins (c # cs) = (case authorLogin c of None \<Rightarrow> {} | Some l \<Rightarrow> {l}) \<union> logins cs"
  by (auto simp: logins_def map_filter_def split: option.splits)

lemma logins_iff: "l \<in> logins cs \<longleftrightarrow> (\<exists>c \<in> set cs. authorLogin c = Some l)"
  by (induction cs) (auto simp: logins_Nil logins_Cons split: option.splits)

lemma authorLogin_nonempty: "authorLogin c = Some l \<Longrightarrow> l \<noteq> []"
  by (auto simp: authorLogin_def split: option.splits if_splits)

lemma set_setAdd: "set (setAdd s x) = insert x (set s)"
  by (auto simp: setAdd_def)

lemma distinct_setAdd: "distinct s \<Longrightarrow> distinct (setAdd s x)"
  by (simp add: setAdd_def)

lemma set_addExisting:
  "set (foldl addExisting ex cs) = set ex \<union> logins cs"
  by (induction cs arbitrary: ex)
     (auto simp: addExisting_def set_setAdd logins_Nil logins_Cons split: option.splits)

lemma distinct_addExisting:
  "distinct ex \<Longrightarrow> distinct (foldl addExisting ex cs)"
  by (induction cs arbitrary: ex)
     (auto simp: addExisting_def distinct_setAdd split: option.splits)

lemma addNew_fold:
  assumes "set nw \<subseteq> set ex" and "distinct nw"
  shows "set (fst (foldl addNew (ex, nw) cs)) = set ex \<union> logins cs
       \<and> set (snd (foldl addNew (ex, nw) cs)) = set nw \<union> (logins cs - set ex)
       \<and> distinct (snd (foldl addNew (ex, nw) cs))"
  using assms
proof (induction cs arbitrary: ex nw)
  case Nil
  then show ?case by (simp add: logins_Nil)
next
  case (Cons c cs)
  show ?case
  proof (cases "authorLogin c")
    case None
    with Cons show ?thesis by (simp add: addNew_def logins_Cons)
  next
    case (Some l)
    show ?thesis
    proof (cases "l \<in> set ex")
      case True
      with Some Cons.IH [OF Cons.prems] show ?thesis
        by (auto simp: addNew_def logins_Cons)
    next
      case False
      with Cons.prems have "l \<notin> set nw" by auto
      then have "set (setAdd nw l) \<subseteq> set (setAdd ex l)" "distinct (setAdd nw l)"
        using Cons.prems by (auto simp: set_setAdd distinct_setAdd)
      from Cons.IH [OF this] Some False show ?thesis
        by (auto simp: addNew_def logins_Cons set_setAdd)
    qed
  qed
qed

lemma count_new:
  "length (snd (foldl addNew (foldl addExisting [] bl, []) tg)) = card (logins tg - logins bl)"
proof -
  have "set (snd (foldl addNew (foldl addExisting [] bl, []) tg)) = logins tg - logins bl"
    and "distinct (snd (foldl addNew (foldl addExisting [] bl, []) tg))"
    using addNew_fold [of "[]" "foldl addExisting [] bl" tg] by (simp_all add: set_addExisting)
  then show ?thesis by (metis distinct_card)
qed

lemma addNew_absent: "authorLogin c = None \<Longrightarrow> addNew sets c = sets"
  by (cases sets) (simp add: addNew_def)

lemma addExisting_absent: "authorLogin c = None \<Longrightarrow> addExisting ex c = ex"
  by (simp add: addExisting_def)

lemma addExisting_filter:
  "foldl addExisting ex (filter (\<lambda>c. authorLogin c \<noteq> None) cs) = foldl addExisting ex cs"
  by (induction cs arbitrary: ex) (auto simp: addExisting_absent)

lemma addNew_filter:
  "foldl addNew sets (filter (\<lambda>c. authorLogin c \<noteq> None) cs) = foldl addNew sets cs"
  by (induction cs arbitrary: sets) (auto simp: addNew_absent)

text \<open>
  Claim C2. Commits without an author login are excluded from both sets: dropping them
  from the fetched commits changes neither the baseline set nor the pair of sets built
  from the target commits. No set contains the empty login. A commit with a null author
  has no login, is skipped by both loops, and as the only target commit leaves the set of
  new contributors empty: an analysis whose target fetch returns only that commit
  reports \<open>newContributors = 0\<close>.
\<close>

theorem absent_login_excluded:
  "foldl addExisting [] (filter (\<lambda>c. authorLogin c \<noteq> None) cs) = foldl addExisting [] cs
   \<and> foldl addNew (ex, []) (filter (\<lambda>c. authorLogin c \<noteq> None) cs) = foldl addNew (ex, []) cs
   \<and> [] \<notin> set (foldl addExisting [] bl)
   \<and> [] \<notin> set (fst (foldl addNew (foldl addExisting [] bl, []) cs))
   \<and> [] \<notin> set (snd (foldl addNew (foldl addExisting [] bl, []) cs))
   \<and> (author c = None \<longrightarrow>
        authorLogin c = None \<and> addExisting ex c = ex
        \<and> length (snd (foldl addNew (ex, []) [c])) = 0)
   \<and> (author c = None
        \<and> getRepository e org repo st = (Inr repository, st1)
        \<and> baselineContributors e org repo (dateParse e (created_at repository))
             (clampStart (fst (periodBounds e year month)) (dateParse e (created_at repository)))
             st1 = (Inr ex, st2)
        \<and> fetchPeriod e org repo
             (clampStart (fst (periodBounds e year month)) (dateParse e (created_at repository)))
             (snd (periodBounds e year month)) st2 = (Inr [c], st3) \<longrightarrow>
        fst (analyse e org repo year month st)
          = Inr \<lparr>cd_org = org, cd_repository = repo, cd_year = year, cd_month = present month,
                  newContributors = 0\<rparr>)"
proof -
  have n: "[] \<notin> logins xs" for xs
    using authorLogin_nonempty by (auto simp: logins_iff)
  have a: "[] \<notin> set (foldl addExisting [] bl)"
    using n by (simp add: set_addExisting)
  from addNew_fold [of "[]" "foldl addExisting [] bl" cs]
  have "set (fst (foldl addNew (foldl addExisting [] bl, []) cs)) = logins bl \<union> logins cs"
    and "set (snd (foldl addNew (foldl addExisting [] bl, []) cs)) = logins cs - logins bl"
    by (simp_all add: set_addExisting)
  with n have b: "[] \<notin> set (fst (foldl addNew (foldl addExisting [] bl, []) cs))"
    and c: "[] \<notin> set (snd (foldl addNew (foldl addExisting [] bl, []) cs))"
    by auto
  have d: "author c = None \<longrightarrow>
        authorLogin c = None \<and> addExisting ex c = ex
        \<and> length (snd (foldl addNew (ex, []) [c])) = 0"
    by (simp add: authorLogin_def addNew_def addExisting_def)
  have w: "author c = None
        \<and> getRepository e org repo st = (Inr repository, st1)
        \<and> baselineContributors e org repo (dateParse e (created_at repository))
             (clampStart (fst (periodBounds e year month)) (dateParse e (created_at repository)))
             st1 = (Inr ex, st2)
        \<and> fetchPeriod e org repo
             (clampStart (fst (periodBounds e year month)) (dateParse e (created_at repository)))
             (snd (periodBounds e year month)) st2 = (Inr [c], st3) \<longrightarrow>
        fst (analyse e org repo year month st)
          = Inr \<lparr>cd_org = org, cd_repository = repo, cd_year = year, cd_month = present month,
                  newContributors = 0\<rparr>"
    by (simp add: analyse_def Let_def authorLogin_def addNew_def)
  from a b c d w addExisting_filter [of "[]" cs] addNew_filter [of "(ex, [])" cs]
  show ?thesis by blast
qed

theorem absent_login_excluded_witness:
  "author anonymousCommit = None
   \<and> length (snd (foldl addNew ([''A''], []) [anonymousCommit])) = 0
   \<and> foldl addExisting [] [commitBy ''A'', anonymousCommit, commitBy ''B''] = [''A'', ''B'']"
proof -
  have h: "author anonymousCommit = None"
    by (simp add: anonymousCommit_def)
  from absent_login_excluded [of "[commitBy ''A'', anonymousCommit, commitBy ''B'']" "[''A'']" "[]" anonymousCommit] h
  have "length (snd (foldl addNew ([''A''], []) [anonymousCommit])) = 0"
    and "foldl addExisting [] [commitBy ''A'', anonymousCommit, commitBy ''B'']
       = foldl addExisting [] (filter (\<lambda>c. authorLogin c \<noteq> None) [commitBy ''A'', anonymousCommit, commitBy ''B''])"
    by simp_all
  moreover have "foldl addExisting [] (filter (\<lambda>c. authorLogin c \<noteq> None) [commitBy ''A'', anonymousCommit, commitBy ''B'']) = [''A'', ''B'']"
    by (simp add: authorLogin_def commitBy_def anonymousCommit_def addExisting_def setAdd_def)
  ultimately show ?thesis using h by simp
qed

section \<open>Properties of the rate governor\<close>

text \<open>
  Claim C4. With a numeric limit \<open>L\<close> (the default is 5000) the reserve step has three
  cases. If an hour or more has passed since \<open>lastResetTime\<close>, \<open>checkRateLimit\<close> restarts
  the window at now with the counter at 0, the request is counted (counter 1) and no
  time passes. If the counter has reached \<open>L\<close> within the hour, the caller sleeps exactly
  until \<open>lastResetTime\<close> plus one hour, the window restarts there and the request leaves
  the counter at 1. Otherwise the counter is incremented, the window is kept, nothing
  is logged and no time passes.
\<close>

theorem reserve_cases:
  assumes "RATE_LIMIT_PER_HOUR e = Some L"
  shows "(clock st - lastResetTime st \<ge> 3600000 \<longrightarrow>
            requestCount (checkRateLimit e st) = 0
          \<and> lastResetTime (checkRateLimit e st) = clock st
          \<and> requestCount (reserve e st) = 1
          \<and> lastResetTime (reserve e st) = clock st
          \<and> clock (reserve e st) = clock st)
       \<and> (clock st - lastResetTime st < 3600000 \<and> requestCount st \<ge> L \<longrightarrow>
            clock (reserve e st) = lastResetTime st + 3600000
          \<and> lastResetTime (reserve e st) = lastResetTime st + 3600000
          \<and> requestCount (checkRateLimit e st) = 0
          \<and> requestCount (reserve e st) = 1)
       \<and> (clock st - lastResetTime st < 3600000 \<and> requestCount st < L \<longrightarrow>
            requestCount (reserve e st) = requestCount st + 1
          \<and> lastResetTime (reserve e st) = lastResetTime st
          \<and> clock (reserve e st) = clock st
          \<and> logged (reserve e st) = logged st)"
  using assms
  by (simp add: reserve_def checkRateLimit_def sleep_def reachedLimit_def Let_def)

theorem reserve_cases_witness:
  "requestCount (reserve baseEnv (freshService\<lparr>requestCount := 5000, clock := 1700000600000\<rparr>)) = 1
   \<and> clock (reserve baseEnv (freshService\<lparr>requestCount := 5000, clock := 1700000600000\<rparr>)) = 1700003600000
   \<and> lastResetTime (reserve baseEnv (freshService\<lparr>requestCount := 5000, clock := 1700000600000\<rparr>)) = 1700003600000
   \<and> requestCount (reserve baseEnv (freshService\<lparr>requestCount := 4999, clock := 1700000600000\<rparr>)) = 5000
   \<and> clock (reserve baseEnv (freshService\<lparr>requestCount := 4999, clock := 1700000600000\<rparr>)) = 1700000600000
   \<and> requestCount (reserve baseEnv (freshService\<lparr>requestCount := 4999, clock := 1700003600000\<rparr>)) = 1
   \<and> lastResetTime (reserve baseEnv (freshService\<lparr>requestCount := 4999, clock := 1700003600000\<rparr>)) = 1700003600000"
proof -
  have l: "RATE_LIMIT_PER_HOUR baseEnv = Some 5000"
    by (simp add: baseEnv_def)
  from reserve_cases [OF l, of "freshService\<lparr>requestCount := 5000, clock := 1700000600000\<rparr>"]
    reserve_cases [OF l, of "freshService\<lparr>requestCount := 4999, clock := 1700000600000\<rparr>"]
    reserve_cases [OF l, of "freshService\<lparr>requestCount := 4999, clock := 1700003600000\<rparr>"]
  show ?thesis
    by (simp add: freshService_def)
qed

section \<open>What the fetches leave unchanged\<close>

lemma reserve_clock_mono: "clock st \<le> clock (reserve e st)"
  by (simp add: reserve_def checkRateLimit_def sleep_def Let_def)

lemma reserve_cache: "cache (reserve e st) = cache st"
  by (simp add: reserve_def checkRateLimit_def sleep_def Let_def)

lemma reserve_calls: "calls (reserve e st) = calls st"
  by (simp add: reserve_def checkRateLimit_def sleep_def Let_def)

lemma reserve_warned: "warned (reserve e st) = warned st"
  by (simp add: reserve_def checkRateLimit_def sleep_def Let_def)

lemma getRepository_frame:
  assumes "getRepository e org repo st = (r, st1)"
  shows "clock st \<le> clock st1 \<and> (k \<noteq> repoKey org repo \<longrightarrow> cache st1 k = cache st k)"
  using assms reserve_clock_mono [of st e]
  by (auto simp: getRepository_def clientGetRepo_def cacheSet_def reserve_cache Let_def
           split: option.splits cache_value.splits outcome.splits if_splits prod.splits)

lemma getCommits_frame:
  assumes "getCommits e org repo snc utl pg st = (r, st1)"
  shows "clock st \<le> clock st1
       \<and> (k \<noteq> commitsKey org repo snc utl pg \<longrightarrow> cache st1 k = cache st k)"
  using assms reserve_clock_mono [of st e]
  by (auto simp: getCommits_def clientGetCommits_def cacheSet_def reserve_cache Let_def
           split: option.splits cache_value.splits outcome.splits if_splits prod.splits)

lemma paginate_frame:
  assumes "paginate e org repo snc utl pg acc st = (r, st')"
  shows "clock st \<le> clock st'
       \<and> ((\<forall>p. k \<noteq> commitsKey org repo (Some snc) (Some utl) p) \<longrightarrow> cache st' k = cache st k)"
  using assms
proof (induction e org repo snc utl pg acc st arbitrary: r st' rule: paginate.induct)
  case (1 e org repo snc utl pg allCommits st)
  obtain r1 st1 where g: "getCommits e org repo (Some snc) (Some utl) pg st = (r1, st1)"
    by (cases "getCommits e org repo (Some snc) (Some utl) pg st")
  note f = getCommits_frame [OF g, of k]
  show ?case
  proof (cases r1)
    case (Inl err)
    with 1(2) g f show ?thesis
      by (subst (asm) paginate.simps) auto
  next
    case (Inr commits)
    obtain a1 p1 h where ap: "afterPage allCommits pg commits = (a1, p1, h)"
      by (cases "afterPage allCommits pg commits")
    show ?thesis
    proof (cases "\<not> p1 > 1000 \<and> h")
      case True
      with 1(2) g Inr ap have rec: "paginate e org repo snc utl p1 a1 st1 = (r, st')"
        by (subst (asm) paginate.simps) simp
      from 1(1) [OF g [symmetric] Inr ap [symmetric] refl _ _ rec] True
      have "clock st1 \<le> clock st'
          \<and> ((\<forall>p. k \<noteq> commitsKey org repo (Some snc) (Some utl) p) \<longrightarrow> cache st' k = cache st1 k)"
        by simp
      with f show ?thesis by auto
    next
      case False
      with 1(2) g Inr ap f show ?thesis
        by (subst (asm) paginate.simps) (auto split: if_splits)
    qed
  qed
qed

lemma baselineContributors_frame:
  assumes "baselineContributors e org repo c s st = (r, st')"
  shows "clock st \<le> clock st'
       \<and> ((\<forall>a b p. k \<noteq> commitsKey org repo a b p) \<longrightarrow> cache st' k = cache st k)"
  using assms paginate_frame [of e org repo _ _ 1 "[]" st _ _ k]
  by (auto simp: baselineContributors_def getAllCommitsPaginated_def
           split: if_splits sum.splits prod.splits)

lemma fetchPeriod_frame:
  assumes "fetchPeriod e org repo s t st = (r, st')"
  shows "clock st \<le> clock st'
       \<and> ((\<forall>a b p. k \<noteq> commitsKey org repo a b p) \<longrightarrow> cache st' k = cache st k)"
  using assms paginate_frame [of e org repo _ _ 1 "[]" st _ _ k]
  by (auto simp: fetchPeriod_def getAllCommitsPaginated_def
           split: if_splits sum.splits prod.splits)

section \<open>Values are stored under keys of their kind\<close>

lemma key_prefixes:
  "take 5 (repoKey org repo) = ''repo:''"
  "take 8 (commitsKey org repo snc utl pg) = ''commits:''"
  "take 13 (contributorsKey org repo year month) = ''contributors:''"
  "take 5 (commitsKey org repo snc utl pg) \<noteq> ''repo:''"
  "take 5 (contributorsKey org repo year month) \<noteq> ''repo:''"
  "take 8 (repoKey org repo) \<noteq> ''commits:''"
  "take 8 (contributorsKey org repo year month) \<noteq> ''commits:''"
  "take 13 (repoKey org repo) \<noteq> ''contributors:''"
  "take 13 (commitsKey org repo snc utl pg) \<noteq> ''contributors:''"
  by (simp_all add: repoKey_def commitsKey_def contributorsKey_def)

lemma cacheKinded_cacheSet:
  "cacheKinded st \<Longrightarrow> kindOfKey k v \<Longrightarrow> cacheKinded (cacheSet e k v ttl st)"
  by (simp add: cacheKinded_def cacheSet_def Let_def)

lemma cacheKinded_cache_eq: "cache st' = cache st \<Longrightarrow> cacheKinded st' = cacheKinded st"
  by (simp add: cacheKinded_def)

lemma cacheKinded_cacheGet:
  "cacheKinded st \<Longrightarrow> cacheGet st k = Some v \<Longrightarrow> kindOfKey k v"
  by (auto simp: cacheKinded_def cacheGet_def split: option.splits if_splits)

lemma cacheKinded_readers:
  assumes "cacheKinded st"
  shows "cacheGet st (repoKey org repo) = Some v \<Longrightarrow> \<exists>r. v = VRepository r"
    and "cacheGet st (commitsKey org repo snc utl pg) = Some v \<Longrightarrow> \<exists>cs. v = VCommits cs"
    and "cacheGet st (contributorsKey org repo year month) = Some v \<Longrightarrow> \<exists>c. v = VContributorData c"
proof -
  assume "cacheGet st (repoKey org repo) = Some v"
  from cacheKinded_cacheGet [OF assms this] show "\<exists>r. v = VRepository r"
    by (cases v) (simp_all add: kindOfKey_def key_prefixes)
next
  assume "cacheGet st (commitsKey org repo snc utl pg) = Some v"
  from cacheKinded_cacheGet [OF assms this] show "\<exists>cs. v = VCommits cs"
    by (cases v) (simp_all add: kindOfKey_def key_prefixes)
next
  assume "cacheGet st (contributorsKey org repo year month) = Some v"
  from cacheKinded_cacheGet [OF assms this] show "\<exists>c. v = VContributorData c"
    by (cases v) (simp_all add: kindOfKey_def key_prefixes)
qed

lemma cacheKinded_getRepository:
  assumes "cacheKinded st" and "getRepository e org repo st = (r, st1)"
  shows "cacheKinded st1"
proof -
  have a: "cacheKinded ((reserve e st)\<lparr>calls := c\<rparr>)" for c
    using assms(1) by (simp add: cacheKinded_def reserve_cache)
  have "kindOfKey (repoKey org repo) (VRepository x)" for x
    by (simp add: kindOfKey_def key_prefixes)
  with a assms show ?thesis
    by (auto simp: getRepository_def clientGetRepo_def Let_def cacheKinded_cacheSet
             split: option.splits cache_value.splits outcome.splits if_splits)
qed

lemma cacheKinded_getCommits:
  assumes "cacheKinded st" and "getCommits e org repo snc utl pg st = (r, st1)"
  shows "cacheKinded st1"
proof -
  have a: "cacheKinded ((reserve e st)\<lparr>calls := c\<rparr>)" for c
    using assms(1) by (simp add: cacheKinded_def reserve_cache)
  have "kindOfKey (commitsKey org repo snc utl pg) (VCommits x)" for x
    by (simp add: kindOfKey_def key_prefixes)
  with a assms show ?thesis
    by (auto simp: getCommits_def clientGetCommits_def Let_def cacheKinded_cacheSet
             split: option.splits cache_value.splits outcome.splits if_splits)
qed

lemma paginate_step:
  assumes "paginate e org repo snc utl pg acc st = (r, st')"
  obtains (failed) err where "getCommits e org repo (Some snc) (Some utl) pg st = (Inl err, st')"
  | (capped) cs st1 where "getCommits e org repo (Some snc) (Some utl) pg st = (Inr cs, st1)"
      "st' = st1\<lparr>warned := warned st1 @ [MaxPageLimit org repo]\<rparr>"
  | (last) cs where "getCommits e org repo (Some snc) (Some utl) pg st = (Inr cs, st')"
  | (more) cs st1 where "getCommits e org repo (Some snc) (Some utl) pg st = (Inr cs, st1)"
      "cs \<noteq> []" "pg < 1000"
      "paginate e org repo snc utl (Suc pg) (acc @ cs) st1 = (r, st')"
proof -
  obtain r1 st1 where g: "getCommits e org repo (Some snc) (Some utl) pg st = (r1, st1)"
    by (cases "getCommits e org repo (Some snc) (Some utl) pg st")
  show thesis
  proof (cases r1)
    case (Inl err)
    with assms g failed [of err] show ?thesis
      by (subst (asm) paginate.simps) auto
  next
    case (Inr cs)
    with assms g capped [of cs st1] last [of cs] more [of cs st1] show ?thesis
      by (subst (asm) paginate.simps) (auto simp: afterPage_def split: if_splits)
  qed
qed

lemma cacheKinded_paginate:
  assumes "cacheKinded st" and "paginate e org repo snc utl pg acc st = (r, st')"
  shows "cacheKinded st'"
  using assms
proof (induction "1001 - pg" arbitrary: pg acc st)
  case 0
  from "0.prems"(2) show ?case
  proof (cases rule: paginate_step)
    case (more cs st1)
    with 0 show ?thesis by simp
  qed (use "0.prems"(1) cacheKinded_getCommits in \<open>auto simp: cacheKinded_def\<close>)
next
  case (Suc n)
  from Suc.prems(2) show ?case
  proof (cases rule: paginate_step)
    case (more cs st1)
    from Suc.hyps(2) more(3) have "n = 1001 - Suc pg" by simp
    from Suc.hyps(1) [OF this cacheKinded_getCommits [OF Suc.prems(1) more(1)] more(4)]
    show ?thesis .
  qed (use Suc.prems(1) cacheKinded_getCommits in \<open>auto simp: cacheKinded_def\<close>)
qed

lemma cacheKinded_baselineContributors:
  assumes "cacheKinded st" and "baselineContributors e org repo c s st = (r, st')"
  shows "cacheKinded st'"
  using assms
  by (auto simp: baselineContributors_def getAllCommitsPaginated_def
           split: if_splits sum.splits prod.splits dest: cacheKinded_paginate)

lemma cacheKinded_fetchPeriod:
  assumes "cacheKinded st" and "fetchPeriod e org repo s t st = (r, st')"
  shows "cacheKinded st'"
  using assms
  by (auto simp: fetchPeriod_def getAllCommitsPaginated_def
           split: if_splits sum.splits prod.splits dest: cacheKinded_paginate)

lemma cacheKinded_analyse:
  assumes "cacheKinded st" and "analyse e org repo year month st = (r, st')"
  shows "cacheKinded st'"
proof -
  have k: "kindOfKey (contributorsKey org repo year month) (VContributorData x)" for x
    by (simp add: kindOfKey_def key_prefixes)
  obtain r1 st1 where g: "getRepository e org repo st = (r1, st1)"
    by (cases "getRepository e org repo st")
  note k1 = cacheKinded_getRepository [OF assms(1) g]
  show ?thesis
  proof (cases r1)
    case (Inl err)
    with assms(2) g k1 show ?thesis by (simp add: analyse_def)
  next
    case (Inr repository)
    let ?c = "dateParse e (created_at repository)"
    let ?s = "clampStart (fst (periodBounds e year month)) ?c"
    obtain r2 st2 where b: "baselineContributors e org repo ?c ?s st1 = (r2, st2)"
      by (cases "baselineContributors e org repo ?c ?s st1")
    note k2 = cacheKinded_baselineContributors [OF k1 b]
    show ?thesis
    proof (cases r2)
      case (Inl err)
      with assms(2) g Inr b k2 show ?thesis by (simp add: analyse_def Let_def)
    next
      case ex: (Inr ex)
      obtain r3 st3 where c: "fetchPeriod e org repo ?s (snd (periodBounds e year month)) st2 = (r3, st3)"
        by (cases "fetchPeriod e org repo ?s (snd (periodBounds e year month)) st2")
      note k3 = cacheKinded_fetchPeriod [OF k2 c]
      from assms(2) g Inr b ex c k3 k show ?thesis
        by (cases r3) (auto simp: analyse_def Let_def cacheKinded_cacheSet)
    qed
  qed
qed

lemma cacheKinded_getNewContributorsByMonth:
  assumes "cacheKinded st" and "getNewContributorsByMonth e org repo year month st = (r, st')"
  shows "cacheKinded st'"
  using assms
  by (auto simp: getNewContributorsByMonth_def
           split: option.splits cache_value.splits sum.splits prod.splits
           dest: cacheKinded_analyse)

lemma cacheKinded_empty: "cache st = Map.empty \<Longrightarrow> cacheKinded st"
  by (simp add: cacheKinded_def)

section \<open>The analysis and its cache entry\<close>

lemma baselineContributors_Inr:
  assumes "baselineContributors e org repo c s st = (Inr ex, st')"
  shows "\<exists>bl. ex = foldl addExisting [] bl
       \<and> (if dateGt s c
           then (\<exists>snc utl. toISOString c = Inr snc \<and> toISOString s = Inr utl
                  \<and> getAllCommitsPaginated e org repo snc utl st = (Inr bl, st'))
           else bl = [] \<and> st' = st)"
proof (cases "dateGt s c")
  case True
  with assms show ?thesis
    by (auto simp: baselineContributors_def split: sum.splits prod.splits)
next
  case False
  with assms have "ex = [] \<and> st' = st"
    by (simp add: baselineContributors_def)
  with False show ?thesis by (intro exI [of _ "[]"]) simp
qed

lemma analyse_Inr:
  assumes "analyse e org repo year month st = (Inr res, st')"
  shows "\<exists>repository st1 ex st2 tg st3.
           getRepository e org repo st = (Inr repository, st1)
         \<and> baselineContributors e org repo (dateParse e (created_at repository))
              (clampStart (fst (periodBounds e year month)) (dateParse e (created_at repository))) st1
             = (Inr ex, st2)
         \<and> fetchPeriod e org repo
              (clampStart (fst (periodBounds e year month)) (dateParse e (created_at repository)))
              (snd (periodBounds e year month)) st2 = (Inr tg, st3)
         \<and> res = \<lparr>cd_org = org, cd_repository = repo, cd_year = year, cd_month = present month,
                   newContributors = length (snd (foldl addNew (ex, []) tg))\<rparr>
         \<and> st' = cacheSet e (contributorsKey org repo year month) (VContributorData res) None st3"
  using assms
  by (auto simp: analyse_def Let_def split: sum.splits prod.splits)

lemma getNew_miss:
  assumes "cacheGet st (contributorsKey org repo year month) = None"
  shows "getNewContributorsByMonth e org repo year month st =
           (case analyse e org repo year month st of
              (Inl err, st1) \<Rightarrow> (Inl (Error (''Failed to analyze contributors: '' @ message err)), st1)
            | (Inr result, st1) \<Rightarrow> (Inr result, st1))"
  using assms by (simp add: getNewContributorsByMonth_def)

text \<open>
  Claim C1. When the analysis runs (nothing cached for the query) and succeeds, the
  lookup has succeeded, the baseline window was fetched exactly when the clamped start
  is after the creation (the baseline commits are empty otherwise), the target window
  was fetched, and \<open>newContributors\<close> is the number of distinct logins of the target
  commits that are not logins of the baseline commits.
\<close>

theorem new_contributors_count:
  assumes "getNewContributorsByMonth e org repo year month st = (Inr res, st')"
    and "cacheGet st (contributorsKey org repo year month) = None"
  shows "\<exists>repository st1 bl st2 tg st3.
           getRepository e org repo st = (Inr repository, st1)
         \<and> (let createdAt = dateParse e (created_at repository);
                 startDate = clampStart (fst (periodBounds e year month)) createdAt;
                 endDate = snd (periodBounds e year month)
             in (if dateGt startDate createdAt
                 then (\<exists>snc utl. toISOString createdAt = Inr snc \<and> toISOString startDate = Inr utl
                        \<and> getAllCommitsPaginated e org repo snc utl st1 = (Inr bl, st2))
                 else bl = [] \<and> st2 = st1)
              \<and> fetchPeriod e org repo startDate endDate st2 = (Inr tg, st3))
         \<and> newContributors res = card (logins tg - logins bl)"
proof -
  from assms have "analyse e org repo year month st = (Inr res, st')"
    by (auto simp: getNew_miss split: sum.splits prod.splits)
  from analyse_Inr [OF this] obtain repository st1 ex st2 tg st3 where
    a: "getRepository e org repo st = (Inr repository, st1)"
    and b: "baselineContributors e org repo (dateParse e (created_at repository))
              (clampStart (fst (periodBounds e year month)) (dateParse e (created_at repository))) st1
             = (Inr ex, st2)"
    and c: "fetchPeriod e org repo
              (clampStart (fst (periodBounds e year month)) (dateParse e (created_at repository)))
              (snd (periodBounds e year month)) st2 = (Inr tg, st3)"
    and d: "res = \<lparr>cd_org = org, cd_repository = repo, cd_year = year, cd_month = present month,
                   newContributors = length (snd (foldl addNew (ex, []) tg))\<rparr>"
    by blast
  from baselineContributors_Inr [OF b] obtain bl where
    ex: "ex = foldl addExisting [] bl"
    and f: "if dateGt (clampStart (fst (periodBounds e year month)) (dateParse e (created_at repository)))
                (dateParse e (created_at repository))
           then (\<exists>snc utl. toISOString (dateParse e (created_at repository)) = Inr snc
                  \<and> toISOString (clampStart (fst (periodBounds e year month))
                        (dateParse e (created_at repository))) = Inr utl
                  \<and> getAllCommitsPaginated e org repo snc utl st1 = (Inr bl, st2))
           else bl = [] \<and> st2 = st1"
    by blast
  from d ex have "newContributors res = card (logins tg - logins bl)"
    by (simp add: count_new)
  with a c f show ?thesis
    unfolding Let_def by blast
qed

lemma scenario_run:
  "fst (getNewContributorsByMonth scenarioEnv ''airbnb'' ''javascript'' ''2021'' (Some ''6'') freshService)
     = Inr \<lparr>cd_org = ''airbnb'', cd_repository = ''javascript'', cd_year = ''2021'',
            cd_month = Some ''6'', newContributors = 2\<rparr>"
  by code_simp

theorem new_contributors_count_witness:
  "\<exists>res st' bl tg.
      getNewContributorsByMonth scenarioEnv ''airbnb'' ''javascript'' ''2021'' (Some ''6'') freshService
        = (Inr res, st')
    \<and> newContributors res = 2
    \<and> card (logins tg - logins bl) = 2"
proof -
  let ?res = "\<lparr>cd_org = ''airbnb'', cd_repository = ''javascript'', cd_year = ''2021'',
            cd_month = Some ''6'', newContributors = 2\<rparr>"
  from scenario_run obtain st' where
    r: "getNewContributorsByMonth scenarioEnv ''airbnb'' ''javascript'' ''2021'' (Some ''6'') freshService
        = (Inr ?res, st')"
    by (metis prod.collapse)
  have m: "cacheGet freshService (contributorsKey ''airbnb'' ''javascript'' ''2021'' (Some ''6'')) = None"
    by (simp add: cacheGet_def freshService_def)
  from new_contributors_count [OF r m] obtain bl tg where
    "newContributors ?res = card (logins tg - logins bl)"
    by blast
  with r show ?thesis by (intro exI [of _ ?res] exI [of _ st'] exI [of _ bl] exI [of _ tg]) simp
qed

lemma getNew_Inr_cached:
  assumes "getNewContributorsByMonth e org repo year month st = (Inr res, st1)"
  shows "\<exists>x. cache st1 (contributorsKey org repo year month)
            = Some \<lparr>stored = VContributorData res, expires = x\<rparr>"
proof (cases "\<exists>c. cacheGet st (contributorsKey org repo year month) = Some (VContributorData c)")
  case True
  then obtain c where c: "cacheGet st (contributorsKey org repo year month) = Some (VContributorData c)"
    by blast
  with assms have "res = c" "st1 = st"
    by (simp_all add: getNewContributorsByMonth_def)
  with c obtain en where "cache st1 (contributorsKey org repo year month) = Some en"
    "stored en = VContributorData res"
    by (auto simp: cacheGet_def split: option.splits if_splits)
  then show ?thesis by (cases en) auto
next
  case False
  with assms have "analyse e org repo year month st = (Inr res, st1)"
    by (auto simp: getNewContributorsByMonth_def
             split: option.splits cache_value.splits sum.splits prod.splits)
  from analyse_Inr [OF this] show ?thesis
    by (auto simp: cacheSet_def Let_def)
qed

text \<open>
  Claim C5. After a successful query, a second query with the same parameters, made
  in any later state that still holds the result entry unexpired, returns the same
  result and leaves the state as it is: no request is sent, no budget is used.
\<close>

theorem repeated_query_from_cache:
  assumes "getNewContributorsByMonth e org repo year month st = (Inr res, st1)"
    and "cache st2 (contributorsKey org repo year month)
           = cache st1 (contributorsKey org repo year month)"
    and "cacheGet st2 (contributorsKey org repo year month) \<noteq> None"
  shows "getNewContributorsByMonth e org repo year month st2 = (Inr res, st2)
       \<and> calls (snd (getNewContributorsByMonth e org repo year month st2)) = calls st2"
proof -
  from getNew_Inr_cached [OF assms(1)] assms(2) obtain x where
    "cache st2 (contributorsKey org repo year month)
       = Some \<lparr>stored = VContributorData res, expires = x\<rparr>"
    by auto
  with assms(3) have "cacheGet st2 (contributorsKey org repo year month) = Some (VContributorData res)"
    by (auto simp: cacheGet_def split: if_splits)
  then show ?thesis
    by (simp add: getNewContributorsByMonth_def)
qed

theorem repeated_query_from_cache_witness:
  "getNewContributorsByMonth baseEnv ''airbnb'' ''javascript'' ''2023'' None populatedService
     = (Inr cachedResult, populatedService)
   \<and> calls (snd (getNewContributorsByMonth baseEnv ''airbnb'' ''javascript'' ''2023'' None populatedService)) = []"
proof -
  have k: "contributorsKey ''airbnb'' ''javascript'' ''2023'' None = ''contributors:airbnb:javascript:2023:all''"
    by (simp add: contributorsKey_def present_def)
  have h: "cacheGet populatedService (contributorsKey ''airbnb'' ''javascript'' ''2023'' None)
      = Some (VContributorData cachedResult)"
    by (simp add: k cacheGet_def populatedService_def freshService_def)
  then have first: "getNewContributorsByMonth baseEnv ''airbnb'' ''javascript'' ''2023'' None populatedService
     = (Inr cachedResult, populatedService)"
    by (simp add: getNewContributorsByMonth_def)
  from h have live: "cacheGet populatedService (contributorsKey ''airbnb'' ''javascript'' ''2023'' None) \<noteq> None"
    by simp
  from repeated_query_from_cache [OF first refl live]
  show ?thesis by (simp add: populatedService_def freshService_def)
qed

section \<open>Failures, the skipped baseline and empty repositories\<close>

lemma analyse_frame:
  assumes "analyse e org repo year month st = (Inl err, st')"
  shows "clock st \<le> clock st'
       \<and> cache st' (contributorsKey org repo year month) = cache st (contributorsKey org repo year month)"
proof -
  let ?k = "contributorsKey org repo year month"
  have nk: "\<forall>a b p. ?k \<noteq> commitsKey org repo a b p" "?k \<noteq> repoKey org repo"
    using key_kinds_differ(2,3) by metis+
  obtain r1 st1 where g: "getRepository e org repo st = (r1, st1)"
    by (cases "getRepository e org repo st")
  from getRepository_frame [OF g, of ?k] nk
  have f1: "clock st \<le> clock st1" "cache st1 ?k = cache st ?k" by simp_all
  show ?thesis
  proof (cases r1)
    case (Inl e1)
    with assms g f1 show ?thesis by (simp add: analyse_def)
  next
    case (Inr repository)
    let ?c = "dateParse e (created_at repository)"
    let ?s = "clampStart (fst (periodBounds e year month)) ?c"
    obtain r2 st2 where b: "baselineContributors e org repo ?c ?s st1 = (r2, st2)"
      by (cases "baselineContributors e org repo ?c ?s st1")
    from baselineContributors_frame [OF b, of ?k] nk
    have f2: "clock st1 \<le> clock st2" "cache st2 ?k = cache st1 ?k" by simp_all
    show ?thesis
    proof (cases r2)
      case (Inl e2)
      with assms g Inr b f1 f2 show ?thesis by (simp add: analyse_def Let_def)
    next
      case ex: (Inr ex)
      obtain r3 st3 where c: "fetchPeriod e org repo ?s (snd (periodBounds e year month)) st2 = (r3, st3)"
        by (cases "fetchPeriod e org repo ?s (snd (periodBounds e year month)) st2")
      from fetchPeriod_frame [OF c, of ?k] nk
      have f3: "clock st2 \<le> clock st3" "cache st3 ?k = cache st2 ?k" by simp_all
      from assms g Inr b ex c f1 f2 f3 show ?thesis
        by (cases r3) (simp_all add: analyse_def Let_def)
    qed
  qed
qed

lemma cacheGet_stays_missed:
  assumes "cache st' k = cache st k" and "clock st \<le> clock st'"
    and "\<forall>c. cacheGet st k \<noteq> Some (VContributorData c)"
  shows "\<forall>c. cacheGet st' k \<noteq> Some (VContributorData c)"
  using assms by (auto simp: cacheGet_def split: option.splits if_splits)

text \<open>
  Claim C8. With nothing cached for the query, a failure of the lookup, of the
  baseline fetch or of the target fetch makes the whole query fail with the message
  \<open>Failed to analyze contributors: \<close> followed by the message of that failure; and
  whenever the query fails its error has that form, the cache entry of the query key is
  what it was before, and no result is cached under it.
\<close>

theorem analysis_failure_wrapped:
  assumes "cacheGet st (contributorsKey org repo year month) = None"
  shows "(\<forall>err0 st1. getRepository e org repo st = (Inl err0, st1) \<longrightarrow>
            getNewContributorsByMonth e org repo year month st
              = (Inl (Error (''Failed to analyze contributors: '' @ message err0)), st1))
       \<and> (\<forall>repository st1 err0 st2.
            getRepository e org repo st = (Inr repository, st1)
            \<and> baselineContributors e org repo (dateParse e (created_at repository))
                 (clampStart (fst (periodBounds e year month)) (dateParse e (created_at repository)))
                 st1 = (Inl err0, st2) \<longrightarrow>
            getNewContributorsByMonth e org repo year month st
              = (Inl (Error (''Failed to analyze contributors: '' @ message err0)), st2))
       \<and> (\<forall>repository st1 ex st2 err0 st3.
            getRepository e org repo st = (Inr repository, st1)
            \<and> baselineContributors e org repo (dateParse e (created_at repository))
                 (clampStart (fst (periodBounds e year month)) (dateParse e (created_at repository)))
                 st1 = (Inr ex, st2)
            \<and> fetchPeriod e org repo
                 (clampStart (fst (periodBounds e year month)) (dateParse e (created_at repository)))
                 (snd (periodBounds e year month)) st2 = (Inl err0, st3) \<longrightarrow>
            getNewContributorsByMonth e org repo year month st
              = (Inl (Error (''Failed to analyze contributors: '' @ message err0)), st3))
       \<and> (\<forall>err st'. getNewContributorsByMonth e org repo year month st = (Inl err, st') \<longrightarrow>
            (\<exists>err0. analyse e org repo year month st = (Inl err0, st')
                   \<and> err = Error (''Failed to analyze contributors: '' @ message err0))
            \<and> cache st' (contributorsKey org repo year month)
                = cache st (contributorsKey org repo year month)
            \<and> (\<forall>c. cacheGet st' (contributorsKey org repo year month) \<noteq> Some (VContributorData c)))"
proof (intro conjI allI impI)
  fix err0 st1
  assume "getRepository e org repo st = (Inl err0, st1)"
  then show "getNewContributorsByMonth e org repo year month st
              = (Inl (Error (''Failed to analyze contributors: '' @ message err0)), st1)"
    by (simp add: getNew_miss [OF assms] analyse_def)
next
  fix repository st1 err0 st2
  assume "getRepository e org repo st = (Inr repository, st1)
            \<and> baselineContributors e org repo (dateParse e (created_at repository))
                 (clampStart (fst (periodBounds e year month)) (dateParse e (created_at repository)))
                 st1 = (Inl err0, st2)"
  then show "getNewContributorsByMonth e org repo year month st
              = (Inl (Error (''Failed to analyze contributors: '' @ message err0)), st2)"
    by (simp add: getNew_miss [OF assms] analyse_def Let_def)
next
  fix repository st1 ex st2 err0 st3
  assume "getRepository e org repo st = (Inr repository, st1)
            \<and> baselineContributors e org repo (dateParse e (created_at repository))
                 (clampStart (fst (periodBounds e year month)) (dateParse e (created_at repository)))
                 st1 = (Inr ex, st2)
            \<and> fetchPeriod e org repo
                 (clampStart (fst (periodBounds e year month)) (dateParse e (created_at repository)))
                 (snd (periodBounds e year month)) st2 = (Inl err0, st3)"
  then show "getNewContributorsByMonth e org repo year month st
              = (Inl (Error (''Failed to analyze contributors: '' @ message err0)), st3)"
    by (simp add: getNew_miss [OF assms] analyse_def Let_def)
next
  fix err st'
  assume f: "getNewContributorsByMonth e org repo year month st = (Inl err, st')"
  then obtain err0 where a: "analyse e org repo year month st = (Inl err0, st')"
    and m: "err = Error (''Failed to analyze contributors: '' @ message err0)"
    by (auto simp: getNew_miss [OF assms] split: sum.splits prod.splits)
  then show "\<exists>err0. analyse e org repo year month st = (Inl err0, st')
                   \<and> err = Error (''Failed to analyze contributors: '' @ message err0)"
    by blast
  from analyse_frame [OF a]
  show "cache st' (contributorsKey org repo year month)
          = cache st (contributorsKey org repo year month)"
    by simp
  fix c
  from analyse_frame [OF a] assms
    cacheGet_stays_missed [of st' "contributorsKey org repo year month" st]
  show "cacheGet st' (contributorsKey org repo year month) \<noteq> Some (VContributorData c)"
    by simp
qed

theorem analysis_failure_wrapped_witness:
  "\<exists>st'. getNewContributorsByMonth baseEnv ''nonexistent'' ''repo'' ''2023'' None freshService
     = (Inl (Error ''Failed to analyze contributors: Repository nonexistent/repo not found''), st')
     \<and> cache st' (contributorsKey ''nonexistent'' ''repo'' ''2023'' None) = None"
proof -
  have m: "cacheGet freshService (contributorsKey ''nonexistent'' ''repo'' ''2023'' None) = None"
    by (simp add: cacheGet_def freshService_def)
  have "fst (getRepository baseEnv ''nonexistent'' ''repo'' freshService)
      = Inl (Error ''Repository nonexistent/repo not found'')"
    by (simp add: getRepository_def clientGetRepo_def cacheGet_def freshService_def baseEnv_def
          Let_def)
  then obtain st1 where g: "getRepository baseEnv ''nonexistent'' ''repo'' freshService
      = (Inl (Error ''Repository nonexistent/repo not found''), st1)"
    by (metis prod.collapse)
  from analysis_failure_wrapped [OF m, of baseEnv] g
  have r: "getNewContributorsByMonth baseEnv ''nonexistent'' ''repo'' ''2023'' None freshService
      = (Inl (Error (''Failed to analyze contributors: ''
            @ message (Error ''Repository nonexistent/repo not found''))), st1)"
    by blast
  with analysis_failure_wrapped [OF m, of baseEnv]
  have "cache st1 (contributorsKey ''nonexistent'' ''repo'' ''2023'' None)
      = cache freshService (contributorsKey ''nonexistent'' ''repo'' ''2023'' None)"
    by blast
  with r show ?thesis by (simp add: freshService_def)
qed

text \<open>
  Claim C7. When the clamped start is the creation instant, the baseline step returns
  the empty set and leaves the state untouched, so it sends no request: the requests of
  the whole analysis are those of the lookup followed by those of the target fetch.
\<close>

theorem baseline_skipped_at_creation:
  assumes "getRepository e org repo st = (Inr repository, st1)"
    and "clampStart (fst (periodBounds e year month)) (dateParse e (created_at repository))
           = dateParse e (created_at repository)"
  shows "baselineContributors e org repo (dateParse e (created_at repository))
           (clampStart (fst (periodBounds e year month)) (dateParse e (created_at repository))) st1
           = (Inr [], st1)
       \<and> calls (snd (analyse e org repo year month st))
           = calls (snd (fetchPeriod e org repo (dateParse e (created_at repository))
                          (snd (periodBounds e year month)) st1))"
proof -
  let ?c = "dateParse e (created_at repository)"
  have ng: "\<not> dateGt ?c ?c"
    by (simp add: dateGt_def dateLt_def split: option.splits)
  then have b: "baselineContributors e org repo ?c ?c st1 = (Inr [], st1)"
    by (simp add: baselineContributors_def)
  obtain r3 st3 where c: "fetchPeriod e org repo ?c (snd (periodBounds e year month)) st1 = (r3, st3)"
    by (cases "fetchPeriod e org repo ?c (snd (periodBounds e year month)) st1")
  from assms b c have "calls (snd (analyse e org repo year month st)) = calls st3"
    by (cases r3) (simp_all add: analyse_def Let_def cacheSet_def)
  with assms(2) b c show ?thesis by simp
qed

lemma june_dates:
  "dateParse juneEnv ''2021-06-15T12:00:00Z'' = Some 1623758400000"
  "periodBounds juneEnv ''2021'' (Some ''6'') = (Some 1622505600000, Some 1625097599000)"
  by code_simp+

theorem baseline_skipped_at_creation_witness:
  "\<exists>st1. getRepository juneEnv ''airbnb'' ''javascript'' freshService
            = (Inr (repoCreated ''2021-06-15T12:00:00Z''), st1)
     \<and> baselineContributors juneEnv ''airbnb'' ''javascript'' (Some 1623758400000)
          (clampStart (Some 1622505600000) (Some 1623758400000)) st1 = (Inr [], st1)
     \<and> calls st1 = [Get ''/repos/airbnb/javascript'' None]"
proof -
  have "fst (getRepository juneEnv ''airbnb'' ''javascript'' freshService)
      = Inr (repoCreated ''2021-06-15T12:00:00Z'')"
    by (simp add: getRepository_def clientGetRepo_def cacheGet_def freshService_def juneEnv_def
          baseEnv_def Let_def)
  then obtain st1 where g: "getRepository juneEnv ''airbnb'' ''javascript'' freshService
      = (Inr (repoCreated ''2021-06-15T12:00:00Z''), st1)"
    by (metis prod.collapse)
  have c: "created_at (repoCreated ''2021-06-15T12:00:00Z'') = ''2021-06-15T12:00:00Z''"
    by (simp add: repoCreated_def)
  have h: "clampStart (fst (periodBounds juneEnv ''2021'' (Some ''6'')))
        (dateParse juneEnv (created_at (repoCreated ''2021-06-15T12:00:00Z'')))
      = dateParse juneEnv (created_at (repoCreated ''2021-06-15T12:00:00Z''))"
    by (simp add: c june_dates clampStart_def dateLt_def)
  from g have "calls st1 = [Get ''/repos/airbnb/javascript'' None]"
    by (auto simp: getRepository_def clientGetRepo_def cacheGet_def cacheSet_def reserve_calls
          freshService_def juneEnv_def baseEnv_def Let_def)
  with baseline_skipped_at_creation [OF g h] g show ?thesis
    by (simp add: c june_dates)
qed

text \<open>
  Claim C10. On a cache miss, a 409 from the platform makes \<open>getCommits\<close> return the
  empty list with the cache as it was and one request sent, so that the same request
  made in any later state with that cache is sent again; a resolved fetch returns the
  page and stores it under the page's key, where the next identical request finds it.
\<close>

theorem empty_repository_not_cached:
  assumes "cacheGet st (commitsKey org repo snc utl pg) = None"
  shows "(commitsApi e (calls st) (commitsUrl org repo) (pageParams snc utl pg) = Rejected (Some 409) msg \<longrightarrow>
            (\<exists>st'. getCommits e org repo snc utl pg st = (Inr [], st')
               \<and> cache st' = cache st
               \<and> calls st' = calls st @ [Get (commitsUrl org repo) (Some (pageParams snc utl pg))]
               \<and> (\<forall>st2. cache st2 = cache st' \<and> clock st' \<le> clock st2 \<longrightarrow>
                     calls (snd (getCommits e org repo snc utl pg st2))
                       = calls st2 @ [Get (commitsUrl org repo) (Some (pageParams snc utl pg))])))
       \<and> (commitsApi e (calls st) (commitsUrl org repo) (pageParams snc utl pg) = Resolved commits \<longrightarrow>
            (\<exists>st'. getCommits e org repo snc utl pg st = (Inr commits, st')
               \<and> cacheGet st' (commitsKey org repo snc utl pg) = Some (VCommits commits)
               \<and> calls st' = calls st @ [Get (commitsUrl org repo) (Some (pageParams snc utl pg))]
               \<and> getCommits e org repo snc utl pg st' = (Inr commits, st')))"
proof (intro conjI impI)
  let ?k = "commitsKey org repo snc utl pg"
  let ?rq = "Get (commitsUrl org repo) (Some (pageParams snc utl pg))"
  assume r: "commitsApi e (calls st) (commitsUrl org repo) (pageParams snc utl pg) = Rejected (Some 409) msg"
  let ?st' = "(reserve e st)\<lparr>calls := calls (reserve e st) @ [?rq]\<rparr>"
  from assms r have g: "getCommits e org repo snc utl pg st = (Inr [], ?st')"
    by (simp add: getCommits_def clientGetCommits_def reserve_calls Let_def)
  have c: "cache ?st' = cache st" by (simp add: reserve_cache)
  have l: "calls ?st' = calls st @ [?rq]" by (simp add: reserve_calls)
  have m: "clock st \<le> clock ?st'" using reserve_clock_mono [of st e] by simp
  have again: "calls (snd (getCommits e org repo snc utl pg st2)) = calls st2 @ [?rq]"
    if "cache st2 = cache ?st' \<and> clock ?st' \<le> clock st2" for st2
  proof -
    from that c m assms have "cacheGet st2 ?k = None"
      by (auto simp: cacheGet_def split: option.splits if_splits)
    then show ?thesis
      by (auto simp: getCommits_def clientGetCommits_def reserve_calls cacheSet_def Let_def
               split: outcome.splits)
  qed
  from g c l again
  show "\<exists>st'. getCommits e org repo snc utl pg st = (Inr [], st')
               \<and> cache st' = cache st
               \<and> calls st' = calls st @ [?rq]
               \<and> (\<forall>st2. cache st2 = cache st' \<and> clock st' \<le> clock st2 \<longrightarrow>
                     calls (snd (getCommits e org repo snc utl pg st2)) = calls st2 @ [?rq])"
    by blast
next
  let ?k = "commitsKey org repo snc utl pg"
  let ?rq = "Get (commitsUrl org repo) (Some (pageParams snc utl pg))"
  assume r: "commitsApi e (calls st) (commitsUrl org repo) (pageParams snc utl pg) = Resolved commits"
  let ?st1 = "(reserve e st)\<lparr>calls := calls (reserve e st) @ [?rq]\<rparr>"
  let ?st' = "cacheSet e ?k (VCommits commits) (Some (cacheTime e snc (clock ?st1))) ?st1"
  from assms r have g: "getCommits e org repo snc utl pg st = (Inr commits, ?st')"
    by (simp add: getCommits_def clientGetCommits_def reserve_calls Let_def)
  have "cacheTime e snc (clock ?st1) = 300 \<or> cacheTime e snc (clock ?st1) = 3600"
    by (simp add: cacheTime_def split: option.splits)
  then have h: "cacheGet ?st' ?k = Some (VCommits commits)"
    by (auto simp: cacheGet_def cacheSet_def Let_def)
  then have "getCommits e org repo snc utl pg ?st' = (Inr commits, ?st')"
    by (simp add: getCommits_def)
  moreover have "calls ?st' = calls st @ [?rq]"
    by (simp add: cacheSet_def Let_def reserve_calls)
  ultimately show "\<exists>st'. getCommits e org repo snc utl pg st = (Inr commits, st')
               \<and> cacheGet st' ?k = Some (VCommits commits)
               \<and> calls st' = calls st @ [?rq]
               \<and> getCommits e org repo snc utl pg st' = (Inr commits, st')"
    using g h by blast
qed

theorem empty_repository_not_cached_witness:
  "\<exists>st'. getCommits emptyRepoEnv ''airbnb'' ''javascript'' None None 1 freshService = (Inr [], st')
     \<and> cache st' = Map.empty \<and> length (calls st') = 1"
proof -
  have m: "cacheGet freshService (commitsKey ''airbnb'' ''javascript'' None None 1) = None"
    by (simp add: cacheGet_def freshService_def)
  have r: "commitsApi emptyRepoEnv (calls freshService) (commitsUrl ''airbnb'' ''javascript'')
      (pageParams None None 1) = Rejected (Some 409) ''Git Repository is empty.''"
    by (simp add: emptyRepoEnv_def baseEnv_def)
  from empty_repository_not_cached [OF m, of emptyRepoEnv "''Git Repository is empty.''"] r
  obtain st' where "getCommits emptyRepoEnv ''airbnb'' ''javascript'' None None 1 freshService = (Inr [], st')"
    "cache st' = cache freshService"
    "calls st' = calls freshService @ [Get (commitsUrl ''airbnb'' ''javascript'') (Some (pageParams None None 1))]"
    by blast
  then show ?thesis by (auto simp: freshService_def)
qed

section \<open>Pagination runs\<close>

lemma stopFrom_here: "p < 1000 \<Longrightarrow> length (pg p) < 100 \<Longrightarrow> stopFrom pg p = p"
  by (simp add: stopFrom_def upt_conv_Cons)

lemma stopFrom_next: "p < 1000 \<Longrightarrow> \<not> length (pg p) < 100 \<Longrightarrow> stopFrom pg p = stopFrom pg (Suc p)"
  by (simp add: stopFrom_def upt_conv_Cons)

lemma stopFrom_cap: "stopFrom pg 1000 = 1000"
  by (simp add: stopFrom_def)

lemma stopFrom_bounds: "p \<le> 1000 \<Longrightarrow> p \<le> stopFrom pg p \<and> stopFrom pg p \<le> 1000"
  by (auto simp: stopFrom_def find_Some_iff split: option.splits)

lemma stopFrom_full: "p \<le> q \<Longrightarrow> q < stopFrom pg p \<Longrightarrow> 100 \<le> length (pg q)"
proof -
  assume a: "p \<le> q" "q < stopFrom pg p"
  show ?thesis
  proof (cases "find (\<lambda>q. length (pg q) < 100) [p..<1000]")
    case None
    with a have "q \<in> set [p..<1000]" by (simp add: stopFrom_def)
    with None show ?thesis by (auto simp: find_None_iff)
  next
    case (Some k)
    with a have qk: "q < k" by (simp add: stopFrom_def)
    from Some obtain i where i: "i < length [p..<1000]" "[p..<1000] ! i = k"
      "\<forall>j<i. \<not> length (pg ([p..<1000] ! j)) < 100"
      by (auto simp: find_Some_iff)
    then have "k = p + i" by simp
    with a qk i have "q - p < i" "[p..<1000] ! (q - p) = q" by auto
    with i(3) show ?thesis by (metis not_le_imp_less)
  qed
qed

lemma stopFrom_short: "stopFrom pg p < 1000 \<Longrightarrow> length (pg (stopFrom pg p)) < 100"
proof (cases "find (\<lambda>q. length (pg q) < 100) [p..<1000]")
  case None
  assume "stopFrom pg p < 1000"
  with None show ?thesis by (simp add: stopFrom_def)
next
  case (Some k)
  then have "length (pg k) < 100" by (auto simp: find_Some_iff)
  with Some show ?thesis by (simp add: stopFrom_def)
qed

lemma commitsKey_page_inj:
  "commitsKey org repo snc utl p = commitsKey org repo snc utl q \<Longrightarrow> p = q"
  by (simp add: commitsKey_def showNat_inj)

lemma getCommits_served:
  assumes "cache st (commitsKey org repo snc utl p) = None"
    and "commitsApi e (calls st) (commitsUrl org repo) (pageParams snc utl p) = Resolved cs"
  shows "\<exists>st1. getCommits e org repo snc utl p st = (Inr cs, st1)
           \<and> calls st1 = calls st @ [Get (commitsUrl org repo) (Some (pageParams snc utl p))]
           \<and> warned st1 = warned st
           \<and> (\<forall>k. k \<noteq> commitsKey org repo snc utl p \<longrightarrow> cache st1 k = cache st k)"
  using assms
  by (simp add: getCommits_def clientGetCommits_def cacheGet_def cacheSet_def reserve_calls
        reserve_cache reserve_warned Let_def)

lemma paginate_run:
  assumes served: "\<And>h q. commitsApi e h (commitsUrl org repo) (pageParams (Some snc) (Some utl) q)
                      = Resolved (pg q)"
    and fresh: "\<And>q. p \<le> q \<Longrightarrow> cache st (commitsKey org repo (Some snc) (Some utl) q) = None"
    and cap: "p \<le> 1000"
  shows "\<exists>st'. paginate e org repo snc utl p acc st
                 = (Inr (acc @ concat (map pg [p..<Suc (stopFrom pg p)])), st')
           \<and> calls st' = calls st @ map (pageRequest org repo snc utl) [p..<Suc (stopFrom pg p)]
           \<and> warned st' = warned st
                @ (if stopFrom pg p = 1000 \<and> pg 1000 \<noteq> [] then [MaxPageLimit org repo] else [])"
  using fresh cap
proof (induction "1000 - p" arbitrary: p acc st)
  case 0
  then have p: "p = 1000" by simp
  from getCommits_served [OF "0.prems"(1) [of p] served [of "calls st" p]] obtain st1 where
    g: "getCommits e org repo (Some snc) (Some utl) p st = (Inr (pg p), st1)"
    and c: "calls st1 = calls st @ [pageRequest org repo snc utl p]"
    and w: "warned st1 = warned st"
    by (auto simp: pageRequest_def)
  from g c w p show ?case
    by (subst paginate.simps) (simp add: afterPage_def stopFrom_cap)
next
  case (Suc n)
  then have p: "p < 1000" by simp
  from getCommits_served [OF Suc.prems(1) [of p] served [of "calls st" p]] obtain st1 where
    g: "getCommits e org repo (Some snc) (Some utl) p st = (Inr (pg p), st1)"
    and c: "calls st1 = calls st @ [pageRequest org repo snc utl p]"
    and w: "warned st1 = warned st"
    and k: "\<forall>k. k \<noteq> commitsKey org repo (Some snc) (Some utl) p \<longrightarrow> cache st1 k = cache st k"
    by (auto simp: pageRequest_def)
  show ?case
  proof (cases "length (pg p) < 100")
    case True
    with p have s: "stopFrom pg p = p" by (simp add: stopFrom_here)
    from g c w p True s show ?thesis
      by (subst paginate.simps) (auto simp: afterPage_def)
  next
    case False
    with p have s: "stopFrom pg p = stopFrom pg (Suc p)" by (simp add: stopFrom_next)
    have fresh1: "cache st1 (commitsKey org repo (Some snc) (Some utl) q) = None" if "Suc p \<le> q" for q
    proof -
      from that have "commitsKey org repo (Some snc) (Some utl) q \<noteq> commitsKey org repo (Some snc) (Some utl) p"
        using commitsKey_page_inj [of org repo "Some snc" "Some utl" q p] by auto
      with k Suc.prems(1) [of q] that show ?thesis by simp
    qed
    from Suc.hyps(2) p have n: "n = 1000 - Suc p" by simp
    from p have le: "Suc p \<le> 1000" by simp
    from Suc.hyps(1) [OF n fresh1 le, of "acc @ pg p"] obtain st' where
      r: "paginate e org repo snc utl (Suc p) (acc @ pg p) st1
            = (Inr ((acc @ pg p) @ concat (map pg [Suc p..<Suc (stopFrom pg (Suc p))])), st')"
      and c': "calls st' = calls st1 @ map (pageRequest org repo snc utl) [Suc p..<Suc (stopFrom pg (Suc p))]"
      and w': "warned st' = warned st1
                @ (if stopFrom pg (Suc p) = 1000 \<and> pg 1000 \<noteq> [] then [MaxPageLimit org repo] else [])"
      by blast
    from stopFrom_bounds [OF le, of pg] have "p < Suc (stopFrom pg (Suc p))" by simp
    then have u: "[p..<Suc (stopFrom pg (Suc p))] = p # [Suc p..<Suc (stopFrom pg (Suc p))]"
      by (rule upt_conv_Cons)
    from False have ne: "pg p \<noteq> []" by auto
    from g False ne p r have "paginate e org repo snc utl p acc st
            = (Inr ((acc @ pg p) @ concat (map pg [Suc p..<Suc (stopFrom pg (Suc p))])), st')"
      by (subst paginate.simps) (simp add: afterPage_def)
    with c c' w w' s u show ?thesis by simp
  qed
qed

lemma getCommits_calls:
  assumes "getCommits e org repo snc utl pg st = (x, st1)"
  shows "length (calls st1) \<le> length (calls st) + 1"
  using assms
  by (auto simp: getCommits_def clientGetCommits_def cacheSet_def reserve_calls Let_def
           split: option.splits cache_value.splits outcome.splits if_splits)

lemma paginate_calls_bounded:
  assumes "paginate e org repo snc utl pg acc st = (r, st')" and "pg \<le> 1000"
  shows "length (calls st') \<le> length (calls st) + (1001 - pg)"
  using assms
proof (induction "1000 - pg" arbitrary: pg acc st)
  case 0
  then have pg: "pg = 1000" by simp
  from "0.prems"(1) show ?case
  proof (cases rule: paginate_step)
    case (failed err)
    with getCommits_calls [OF failed] pg show ?thesis by simp
  next
    case (capped cs st1)
    with getCommits_calls [OF capped(1)] pg show ?thesis by simp
  next
    case (last cs)
    with getCommits_calls [OF last] pg show ?thesis by simp
  next
    case (more cs st1)
    with pg show ?thesis by simp
  qed
next
  case (Suc n)
  then have pg: "pg < 1000" by simp
  from Suc.prems(1) show ?case
  proof (cases rule: paginate_step)
    case (failed err)
    with getCommits_calls [OF failed] pg show ?thesis by simp
  next
    case (capped cs st1)
    with getCommits_calls [OF capped(1)] pg show ?thesis by simp
  next
    case (last cs)
    with getCommits_calls [OF last] pg show ?thesis by simp
  next
    case (more cs st1)
    from Suc.hyps(2) pg have n: "n = 1000 - Suc pg" by simp
    from pg have le: "Suc pg \<le> 1000" by simp
    from Suc.hyps(1) [OF n more(4) le] getCommits_calls [OF more(1)] pg show ?thesis by simp
  qed
qed

text \<open>
  Claim C3. The aggregation returns on every input, after at most 1000 requests. Against
  a platform that serves the page sequence \<open>pg\<close> for the window, with none of the
  window's pages cached, it sends the requests for pages 1, 2, ..., k in this order, each
  with \<open>per_page = 100\<close>, where k is the first page with fewer than 100 commits (an
  empty page included) or the cap 1000 when there is none below it; it returns the pages
  1 to k concatenated; and it warns exactly when page 1000 was reached and was not
  empty. In particular a sequence of full pages stops at the cap, with the warning.
\<close>

theorem pagination_stops:
  "length (calls (snd (getAllCommitsPaginated e org repo snc utl st))) \<le> length (calls st) + 1000
   \<and> ((\<forall>h q. commitsApi e h (commitsUrl org repo) (pageParams (Some snc) (Some utl) q)
               = Resolved (pg q))
        \<and> (\<forall>q. cache st (commitsKey org repo (Some snc) (Some utl) q) = None) \<longrightarrow>
       (\<exists>k st'. k = stopFrom pg 1 \<and> 1 \<le> k \<and> k \<le> 1000
           \<and> (\<forall>q. 1 \<le> q \<and> q < k \<longrightarrow> 100 \<le> length (pg q))
           \<and> (length (pg k) < 100 \<or> k = 1000)
           \<and> ((\<forall>q. length (pg q) = 100) \<longrightarrow> k = 1000 \<and> pg 1000 \<noteq> [])
           \<and> getAllCommitsPaginated e org repo snc utl st = (Inr (concat (map pg [1..<Suc k])), st')
           \<and> calls st' = calls st @ map (pageRequest org repo snc utl) [1..<Suc k]
           \<and> warned st' = warned st
                @ (if k = 1000 \<and> pg 1000 \<noteq> [] then [MaxPageLimit org repo] else [])))"
proof (intro conjI impI)
  obtain r st' where "paginate e org repo snc utl 1 [] st = (r, st')"
    by (cases "paginate e org repo snc utl 1 [] st")
  with paginate_calls_bounded [OF this]
  show "length (calls (snd (getAllCommitsPaginated e org repo snc utl st))) \<le> length (calls st) + 1000"
    by (simp add: getAllCommitsPaginated_def)
next
  assume h: "(\<forall>h q. commitsApi e h (commitsUrl org repo) (pageParams (Some snc) (Some utl) q)
               = Resolved (pg q))
        \<and> (\<forall>q. cache st (commitsKey org repo (Some snc) (Some utl) q) = None)"
  have b: "1 \<le> stopFrom pg 1 \<and> stopFrom pg 1 \<le> 1000"
    using stopFrom_bounds [of 1 pg] by simp
  have f: "\<forall>q. 1 \<le> q \<and> q < stopFrom pg 1 \<longrightarrow> 100 \<le> length (pg q)"
    using stopFrom_full [of 1 _ pg] by blast
  have s: "length (pg (stopFrom pg 1)) < 100 \<or> stopFrom pg 1 = 1000"
    using stopFrom_short [of pg 1] b by linarith
  have a: "(\<forall>q. length (pg q) = 100) \<longrightarrow> stopFrom pg 1 = 1000 \<and> pg 1000 \<noteq> []"
  proof (intro impI conjI)
    assume full: "\<forall>q. length (pg q) = 100"
    with s show "stopFrom pg 1 = 1000" by auto
    from full have "length (pg 1000) = 100" by blast
    then show "pg 1000 \<noteq> []" by auto
  qed
  from h paginate_run [of e org repo snc utl pg 1 st "[]"]
  obtain st' where "getAllCommitsPaginated e org repo snc utl st
        = (Inr (concat (map pg [1..<Suc (stopFrom pg 1)])), st')"
    "calls st' = calls st @ map (pageRequest org repo snc utl) [1..<Suc (stopFrom pg 1)]"
    "warned st' = warned st
       @ (if stopFrom pg 1 = 1000 \<and> pg 1000 \<noteq> [] then [MaxPageLimit org repo] else [])"
    by (auto simp: getAllCommitsPaginated_def)
  with b f s a
  show "\<exists>k st'. k = stopFrom pg 1 \<and> 1 \<le> k \<and> k \<le> 1000
           \<and> (\<forall>q. 1 \<le> q \<and> q < k \<longrightarrow> 100 \<le> length (pg q))
           \<and> (length (pg k) < 100 \<or> k = 1000)
           \<and> ((\<forall>q. length (pg q) = 100) \<longrightarrow> k = 1000 \<and> pg 1000 \<noteq> [])
           \<and> getAllCommitsPaginated e org repo snc utl st = (Inr (concat (map pg [1..<Suc k])), st')
           \<and> calls st' = calls st @ map (pageRequest org repo snc utl) [1..<Suc k]
           \<and> warned st' = warned st
                @ (if k = 1000 \<and> pg 1000 \<noteq> [] then [MaxPageLimit org repo] else [])"
    by blast
qed

theorem pagination_stops_witness:
  "\<exists>st'. getAllCommitsPaginated threePagesEnv ''airbnb'' ''javascript''
            ''2020-01-01T00:00:00.000Z'' ''2021-06-01T00:00:00.000Z'' freshService
          = (Inr (replicate 237 (commitBy ''A'')), st')
     \<and> length (calls st') = 3 \<and> warned st' = []"
proof -
  have served: "\<And>h q. commitsApi threePagesEnv h (commitsUrl ''airbnb'' ''javascript'')
        (pageParams (Some ''2020-01-01T00:00:00.000Z'') (Some ''2021-06-01T00:00:00.000Z'') q)
      = Resolved (threePages q)"
    by (simp add: threePagesEnv_def baseEnv_def pageParams_def)
  have fresh: "\<And>q. cache freshService (commitsKey ''airbnb'' ''javascript''
        (Some ''2020-01-01T00:00:00.000Z'') (Some ''2021-06-01T00:00:00.000Z'') q) = None"
    by (simp add: freshService_def)
  have s1: "stopFrom threePages 1 = stopFrom threePages (Suc 1)"
    by (rule stopFrom_next) (simp_all add: threePages_def)
  have s2: "stopFrom threePages 2 = stopFrom threePages (Suc 2)"
    by (rule stopFrom_next) (simp_all add: threePages_def)
  have s3: "stopFrom threePages 3 = 3"
    by (rule stopFrom_here) (simp_all add: threePages_def)
  from s1 s2 s3 have k: "stopFrom threePages 1 = 3"
    by (simp add: numeral_2_eq_2 numeral_3_eq_3)
  have u: "[1..<Suc 3] = [1, 2, 3]"
    by (simp add: upt_rec)
  have c: "concat (map threePages [1, 2, 3]) = replicate 237 (commitBy ''A'')"
    by (simp add: threePages_def replicate_add [symmetric])
  from served fresh
    pagination_stops [of threePagesEnv "''airbnb''" "''javascript''"
      "''2020-01-01T00:00:00.000Z''" "''2021-06-01T00:00:00.000Z''" freshService threePages]
  obtain kk st' where kk: "kk = stopFrom threePages 1"
    and run: "getAllCommitsPaginated threePagesEnv ''airbnb'' ''javascript''
            ''2020-01-01T00:00:00.000Z'' ''2021-06-01T00:00:00.000Z'' freshService
          = (Inr (concat (map threePages [1..<Suc kk])), st')"
    and sent: "calls st' = calls freshService @ map (pageRequest ''airbnb'' ''javascript''
        ''2020-01-01T00:00:00.000Z'' ''2021-06-01T00:00:00.000Z'') [1..<Suc kk]"
    and warn: "warned st' = warned freshService
        @ (if kk = 1000 \<and> threePages 1000 \<noteq> [] then [MaxPageLimit ''airbnb'' ''javascript''] else [])"
    by blast
  from kk k have kk3: "kk = 3" by simp
  from run have "getAllCommitsPaginated threePagesEnv ''airbnb'' ''javascript''
            ''2020-01-01T00:00:00.000Z'' ''2021-06-01T00:00:00.000Z'' freshService
          = (Inr (replicate 237 (commitBy ''A'')), st')"
    by (simp only: kk3 u c)
  moreover from sent have "length (calls st') = 3"
    by (simp only: kk3 u) (simp add: freshService_def)
  moreover from warn kk3 have "warned st' = []"
    by (simp add: freshService_def)
  ultimately show ?thesis by blast
qed

section \<open>The analysis period\<close>

text \<open>
  The start of the period is clamped to the creation instant before it is used by any
  fetch: \<open>analyse\<close> passes only the clamped start to the baseline step and to the target
  fetch.
\<close>

lemma clamp_to_creation:
  "dateLt startDate repoCreatedAt \<Longrightarrow> clampStart startDate repoCreatedAt = repoCreatedAt"
  by (simp add: clampStart_def)

text \<open>
  In a process whose local zone is UTC the month of June 2021 runs from its first
  instant to \<open>2021-06-30T23:59:59\<close>, and the year 2021 to \<open>2021-12-31T23:59:59\<close>.
\<close>

lemma month_period_in_utc:
  "periodBounds baseEnv ''2021'' (Some ''6'') = (Some 1622505600000, Some 1625097599000)
   \<and> toISOString (Some 1625097599000) = Inr ''2021-06-30T23:59:59.000Z''
   \<and> periodBounds baseEnv ''2021'' None = (Some 1609459200000, Some 1640995199000)
   \<and> toISOString (Some 1640995199000) = Inr ''2021-12-31T23:59:59.000Z''"
  by code_simp

text \<open>
  Claim C6 fails where the local zone is not UTC. The start is parsed as UTC, but the
  end is built from the local calendar fields of the start. Five hours behind UTC the
  start \<open>2021-06-01T00:00:00Z\<close> is still May 31 locally, so the end is the last second
  of May in local time, \<open>2021-06-01T04:59:59Z\<close>: the period of June 2021 is its first
  five hours.
\<close>

theorem month_period_in_local_zone:
  "periodBounds bogotaEnv ''2021'' (Some ''6'') = (Some 1622505600000, Some 1622523599000)
   \<and> toISOString (Some 1622505600000) = Inr ''2021-06-01T00:00:00.000Z''
   \<and> toISOString (Some 1622523599000) = Inr ''2021-06-01T04:59:59.000Z''"
  by code_simp

text \<open>
  Without a month the end is parsed as local time, so five hours behind UTC the year
  2021 ends at \<open>2022-01-01T04:59:59Z\<close>.
\<close>

lemma year_period_in_local_zone:
  "periodBounds bogotaEnv ''2021'' None = (Some 1609459200000, Some 1641013199000)
   \<and> toISOString (Some 1609459200000) = Inr ''2021-01-01T00:00:00.000Z''
   \<and> toISOString (Some 1641013199000) = Inr ''2022-01-01T04:59:59.000Z''"
  by code_simp

end
